theory Spec2Isabelle
  imports Complex_Main "HOL-Library.Log_Nat"
begin

section \<open>The Plinko plugin: data model\<close>

text \<open>
  The embedding follows \<^verbatim>\<open>src/PlinkoSDK/PlinkoSDKEngine.py\<close>.

  The data frame \<^verbatim>\<open>df\<close> is a list of rows, each row a list of cells; its index and its
  column labels are the positions \<open>0, 1, ...\<close> (a frame built from a list of ranges has
  a range index on both axes). A cell holds the integer 0 or 1 until the propagation
  writes a double into it; both are modelled by the rational number they denote, and
  every addition and division of the propagation is rounded as a double operation
  (\<open>rnd\<close> below). A cell that receives a double makes its integer column a column of
  doubles without changing any value.

  The exceptions Python raises are values of \<open>error\<close>.
\<close>

datatype error = TypeError | IndexError

type_synonym frame = "rat list list"

type_synonym series = "(nat \<times> rat) list"

text \<open>
  The instance attributes of \<^verbatim>\<open>AyxPlugin\<close> that the computation reads or writes.
  \<open>is_initialized\<close> is not set by the constructor of this plugin (\<open>None\<close>), only by
  \<^verbatim>\<open>display_error_msg\<close>. \<open>messages\<close> records the error messages handed to the engine by
  \<^verbatim>\<open>alteryx_engine.output_message\<close>, in order.
\<close>

record plugin =
  max_width :: "int option"
  number_rows :: "int option"
  starting_pos :: "int option"
  is_initialized :: "bool option"
  messages :: "string list"
  df :: "frame option"
  last_row :: "series option"

definition new_plugin :: plugin where
  "new_plugin =
     \<lparr>max_width = None, number_rows = None, starting_pos = None,
      is_initialized = None, messages = [], df = None, last_row = None\<rparr>"

definition display_error_msg :: "string \<Rightarrow> plugin \<Rightarrow> plugin" where
  "display_error_msg msg_string self =
     self\<lparr>is_initialized := Some False, messages := messages self @ [msg_string]\<rparr>"

section \<open>plinko\_stat\<close>

text \<open>
  \<^verbatim>\<open>df = pd.DataFrame([range(1,max_width*2)]*number_rows)\<close> followed by the loop that
  sets every cell to 0: \<open>number_rows\<close> rows (none when the count is not positive) of
  \<open>2 * max_width - 1\<close> columns (none when that is not positive).
\<close>

definition zero_frame :: "int \<Rightarrow> int \<Rightarrow> frame" where
  "zero_frame w r = replicate (nat r) (replicate (nat (2 * w - 1)) 0)"

text \<open>
  \<^verbatim>\<open>count = 1; for y in df.columns: if count == starting_position: df.iloc[0,y] = 1; count += 1\<close>.
  At column \<open>y\<close> the counter is \<open>y + 1\<close>; a starting position \<open>None\<close> equals no counter.
  A frame without rows has no columns either, so the loop body does not run.
\<close>

definition place_start :: "int option \<Rightarrow> frame \<Rightarrow> frame" where
  "place_start starting_position d =
     (case d of [] \<Rightarrow> []
      | row0 # rest \<Rightarrow>
          map (\<lambda>y. if Some (int y + 1) = starting_position then 1 else row0 ! y)
            [0..<length row0] # rest)"

text \<open>
  Doubles. A finite double is a rational number; the result of an operation is the exact
  result rounded to the nearest double, ties going to the even significand. \<open>expo x\<close>
  is the exponent of the leading bit of \<open>x\<close> (\<open>expo_bounds\<close>), \<open>rhe\<close> rounds a rational
  to the nearest integer, ties to even. The significand has 53 bits, and below
  \<open>2 powi (- 1022)\<close> the spacing stays \<open>2 powi (- 1074)\<close> (subnormal numbers). Overflow
  to infinity is not modelled: no cell of a frame exceeds 2 (\<open>cells_le_2\<close>).
\<close>

definition expo :: "rat \<Rightarrow> int" where
  "expo x =
     (let (p, q) = quotient_of \<bar>x\<bar>; c = bitlen p - bitlen q
      in if 2 powi c \<le> \<bar>x\<bar> then c else c - 1)"

definition rhe :: "rat \<Rightarrow> int" where
  "rhe m =
     (let f = \<lfloor>m\<rfloor>; r = m - of_int f
      in if r < 1 / 2 then f else if 1 / 2 < r then f + 1 else if even f then f else f + 1)"

definition rnd :: "rat \<Rightarrow> rat" where
  "rnd x =
     (if x = 0 then 0
      else (let t = max (expo x) (- 1022) - 52 in of_int (rhe (x / 2 powi t)) * 2 powi t))"

text \<open>
  The body of the inner loop for destination column \<open>y\<close>, reading the previous row.
  \<open>mx\<close> is \<^verbatim>\<open>max(df.columns)\<close>. Both reads are guarded to be in range, so the
  \<^verbatim>\<open>except\<close> branches are never taken. \<^verbatim>\<open>val\<close> starts as 0, and every \<^verbatim>\<open>+=\<close> and
  every \<^verbatim>\<open>/2\<close> is an operation on doubles.
\<close>

definition cell :: "rat list \<Rightarrow> nat \<Rightarrow> rat" where
  "cell prev y =
     (let mx = int (length prev) - 1;
          tempval1 = (if int y - 1 \<ge> 0 then prev ! (y - 1) else 0);
          val1 = (if y = 1 then rnd (0 + tempval1) else rnd (0 + rnd (tempval1 / 2)));
          tempval2 = (if int y + 1 \<le> mx then prev ! (y + 1) else 0);
          val2 = (if int y = mx - 1 then rnd (val1 + tempval2) else rnd (val1 + rnd (tempval2 / 2)))
      in val2)"

definition next_row :: "rat list \<Rightarrow> rat list" where
  "next_row prev = map (cell prev) [0..<length prev]"

text \<open>
  \<^verbatim>\<open>for x in df.index\<close>: row 0 is left alone, every later row \<open>x\<close> is overwritten cell by
  cell from row \<open>x - 1\<close> of the same frame.
\<close>

definition fill_row :: "nat \<Rightarrow> frame \<Rightarrow> frame" where
  "fill_row x d = (if x = 0 then d else d[x := next_row (d ! (x - 1))])"

definition propagate :: "frame \<Rightarrow> frame" where
  "propagate d = fold fill_row [0..<length d] d"

text \<open>
  \<^verbatim>\<open>row[row != 0]\<close>: the cells of a row that are not zero, each with its column label,
  in column order.
\<close>

definition nonzero :: "rat list \<Rightarrow> series" where
  "nonzero row = filter (\<lambda>(c, v). v \<noteq> 0) (zip [0..<length row] row)"

text \<open>
  \<^verbatim>\<open>max_width*2\<close> and \<^verbatim>\<open>[...]*number_rows\<close> raise TypeError on \<open>None\<close>;
  \<^verbatim>\<open>df.iloc[-1,]\<close> raises IndexError on a frame without rows.
\<close>

definition plinko_stat :: "plugin \<Rightarrow> error + (frame \<times> series)" where
  "plinko_stat self =
     (case max_width self of
        None \<Rightarrow> Inl TypeError
      | Some w \<Rightarrow>
          (case number_rows self of
             None \<Rightarrow> Inl TypeError
           | Some r \<Rightarrow>
               (let d = propagate (place_start (starting_pos self) (zero_frame w r))
                in if d = [] then Inl IndexError else Inr (d, nonzero (last d)))))"

section \<open>pi\_init\<close>

text \<open>
  The three configuration values arrive already parsed (\<open>None\<close> when the tag is absent
  from the XML). The validity checks only emit messages; \<^verbatim>\<open>plinko_stat\<close> is called
  afterwards in every case. Comparing a starting position with a missing width raises
  TypeError.
\<close>

definition valid_checks :: "plugin \<Rightarrow> error + plugin" where
  "valid_checks self =
     (case starting_pos self of
        None \<Rightarrow> Inr (display_error_msg ''Starting Position cannot be empty.'' self)
      | Some s \<Rightarrow>
          (case max_width self of
             None \<Rightarrow> Inl TypeError
           | Some w \<Rightarrow>
               if s > w
               then Inr (display_error_msg
                      ''Starting Position cannot be greater than the number of slots.'' self)
               else Inr self))"

definition pi_init :: "int option \<Rightarrow> int option \<Rightarrow> int option \<Rightarrow> plugin \<Rightarrow> error + plugin" where
  "pi_init slots rows pos self0 =
     (case valid_checks (self0\<lparr>max_width := slots, number_rows := rows, starting_pos := pos\<rparr>) of
        Inl e \<Rightarrow> Inl e
      | Inr self \<Rightarrow>
          (case plinko_stat self of
             Inl e \<Rightarrow> Inl e
           | Inr (d, l) \<Rightarrow> Inr (self\<lparr>df := Some d, last_row := Some l\<rparr>)))"

text \<open>The plugin as the constructor leaves it, configured with a board.\<close>

definition board :: "int \<Rightarrow> int \<Rightarrow> int \<Rightarrow> plugin" where
  "board w r s = new_plugin\<lparr>max_width := Some w, number_rows := Some r, starting_pos := Some s\<rparr>"

section \<open>Notions used in the statements and proofs\<close>

text \<open>
  The first row after the starting position has been placed in an all-zero frame of
  width \<open>w\<close>.
\<close>

definition impulse :: "int \<Rightarrow> int option \<Rightarrow> rat list" where
  "impulse w sp = map (\<lambda>y. if Some (int y + 1) = sp then 1 else 0) [0..<nat (2 * w - 1)]"

text \<open>
  The mirror image of a series on a board of width \<open>w\<close>: column \<open>c\<close> becomes column
  \<open>2 * w - 2 - c\<close>, and the entries are listed by ascending column again.
\<close>

definition mirror :: "int \<Rightarrow> series \<Rightarrow> series" where
  "mirror w l = rev (map (\<lambda>(c, v). (nat (2 * w - 2) - c, v)) l)"

text \<open>
  A row of non-negative doubles.
\<close>

definition doubles :: "rat list \<Rightarrow> bool" where
  "doubles p = (\<forall>v\<in>set p. 0 \<le> v \<and> rnd v = v)"

text \<open>
  What the left source and the right source contribute to \<open>val\<close> in \<open>cell\<close>, with the
  guards written on natural numbers.
\<close>

definition lpart :: "rat list \<Rightarrow> nat \<Rightarrow> rat" where
  "lpart p y = (if y = 0 then 0 else if y = 1 then p ! 0 else rnd (p ! (y - 1) / 2))"

definition rpart :: "rat list \<Rightarrow> nat \<Rightarrow> rat" where
  "rpart p y =
     (if length p \<le> y + 1 then 0
      else if y + 2 = length p then p ! (y + 1)
      else rnd (p ! (y + 1) / 2))"

text \<open>
  The same contributions and the propagation step without rounding.
\<close>

definition lexact :: "rat list \<Rightarrow> nat \<Rightarrow> rat" where
  "lexact p y = (if y = 0 then 0 else if y = 1 then p ! 0 else p ! (y - 1) / 2)"

definition rexact :: "rat list \<Rightarrow> nat \<Rightarrow> rat" where
  "rexact p y =
     (if length p \<le> y + 1 then 0
      else if y + 2 = length p then p ! (y + 1)
      else p ! (y + 1) / 2)"

definition next_exact :: "rat list \<Rightarrow> rat list" where
  "next_exact p = map (\<lambda>y. lexact p y + rexact p y) [0..<length p]"

text \<open>
  A non-negative multiple of \<open>1 / 2 ^ i\<close>; a row of such cells whose sum is at most 1.
\<close>

definition dyadic :: "nat \<Rightarrow> rat \<Rightarrow> bool" where
  "dyadic i v = (\<exists>k::int. 0 \<le> k \<and> v = of_int k / 2 ^ i)"

definition good :: "nat \<Rightarrow> rat list \<Rightarrow> bool" where
  "good i p = ((\<forall>v\<in>set p. dyadic i v) \<and> sum_list p \<le> 1)"

text \<open>
  The frame and the result of \<^verbatim>\<open>plinko_stat\<close> computed without rounding.
\<close>

primrec exact_rows :: "nat \<Rightarrow> rat list \<Rightarrow> rat list list" where
  "exact_rows 0 p = []"
| "exact_rows (Suc n) p = p # exact_rows n (next_exact p)"

definition exact_stat :: "int \<Rightarrow> int \<Rightarrow> int option \<Rightarrow> error + (frame \<times> series)" where
  "exact_stat w r sp =
     (let d = exact_rows (nat r) (impulse w sp) in Inr (d, nonzero (last d)))"

text \<open>
  A row of doubles that are at most 2, with edge cells at most 1.
\<close>

definition bounded :: "rat list \<Rightarrow> bool" where
  "bounded p = (doubles p \<and> (\<forall>v\<in>set p. v \<le> 2) \<and> (p \<noteq> [] \<longrightarrow> p ! 0 \<le> 1 \<and> last p \<le> 1))"

section \<open>Rounding to a double\<close>

lemma powi_less_imp: "(2::rat) powi a < 2 powi b \<Longrightarrow> a < b"
  using power_int_increasing [of b a "2::rat"] by (cases "a < b") auto


lemma expo_bounds:
  assumes "0 < x"
  shows "2 powi expo x \<le> x" and "x < 2 powi (expo x + 1)"
proof -
  obtain p q where pq: "quotient_of x = (p, q)" by (cases "quotient_of x")
  have q: "0 < q" using quotient_of_denom_pos [OF pq] .
  have x: "x = of_int p / of_int q" using quotient_of_div [OF pq] .
  have p: "0 < p" using assms q unfolding x by (simp add: zero_less_divide_iff)
  define c where "c = bitlen p - bitlen q"
  have e: "expo x = (if 2 powi c \<le> x then c else c - 1)"
    using assms by (simp add: expo_def pq c_def Let_def)
  have bp: "1 \<le> bitlen p" "1 \<le> bitlen q" using p q
    by (simp_all add: bitlen_alt_def)
  have pl: "(2::rat) powi (bitlen p - 1) \<le> of_int p"
  proof -
    have "(2::int) ^ nat (bitlen p - 1) \<le> p" using bitlen_bounds [OF p] by simp
    then have "(of_int (2 ^ nat (bitlen p - 1)) :: rat) \<le> of_int p" by (simp only: of_int_le_iff)
    then show ?thesis using bp by (simp add: power_int_def)
  qed
  have pu: "of_int p < (2::rat) powi (bitlen p)"
  proof -
    have "p < (2::int) ^ nat (bitlen p)" using bitlen_bounds [OF p] by simp
    then have "(of_int p :: rat) < of_int (2 ^ nat (bitlen p))" by (simp only: of_int_less_iff)
    then show ?thesis using bp by (simp add: power_int_def)
  qed
  have ql: "(2::rat) powi (bitlen q - 1) \<le> of_int q"
  proof -
    have "(2::int) ^ nat (bitlen q - 1) \<le> q" using bitlen_bounds [OF q] by simp
    then have "(of_int (2 ^ nat (bitlen q - 1)) :: rat) \<le> of_int q" by (simp only: of_int_le_iff)
    then show ?thesis using bp by (simp add: power_int_def)
  qed
  have qu: "of_int q < (2::rat) powi (bitlen q)"
  proof -
    have "q < (2::int) ^ nat (bitlen q)" using bitlen_bounds [OF q] by simp
    then have "(of_int q :: rat) < of_int (2 ^ nat (bitlen q))" by (simp only: of_int_less_iff)
    then show ?thesis using bp by (simp add: power_int_def)
  qed
  have qpos: "(0::rat) < of_int q" using q by simp
  have lo: "2 powi (c - 1) \<le> x"
  proof -
    have "(2::rat) powi (c - 1) * of_int q \<le> 2 powi (c - 1) * 2 powi (bitlen q)"
      using qu by (intro mult_left_mono) simp_all
    also have "\<dots> = 2 powi (bitlen p - 1)"
      by (simp add: c_def flip: power_int_add)
    also have "\<dots> \<le> of_int p" by (rule pl)
    finally show ?thesis unfolding x using qpos by (simp add: pos_le_divide_eq)
  qed
  have hi: "x < 2 powi (c + 1)"
  proof -
    have "of_int p < (2::rat) powi (bitlen p)" by (rule pu)
    also have "\<dots> = 2 powi (c + 1) * 2 powi (bitlen q - 1)"
      by (simp add: c_def flip: power_int_add)
    also have "\<dots> \<le> 2 powi (c + 1) * of_int q"
      using ql by (intro mult_left_mono) simp_all
    finally show ?thesis unfolding x using qpos by (simp add: pos_divide_less_eq)
  qed
  show "2 powi expo x \<le> x" using lo by (simp add: e)
  show "x < 2 powi (expo x + 1)" using hi by (auto simp: e not_le)
qed


lemma rhe_of_int [simp]: "rhe (of_int k) = k"
  by (simp add: rhe_def)

lemma rhe_le: "m \<le> of_int k \<Longrightarrow> rhe m \<le> k"
proof -
  assume m: "m \<le> of_int k"
  then have f: "\<lfloor>m\<rfloor> \<le> k" by (simp add: floor_le_iff) 
  show ?thesis
  proof (cases "\<lfloor>m\<rfloor> = k")
    case True
    then have "of_int k \<le> m" by (metis of_int_floor_le)
    with m have "m = of_int k" by simp
    then show ?thesis by simp
  next
    case False
    with f have "\<lfloor>m\<rfloor> + 1 \<le> k" by simp
    then show ?thesis by (auto simp: rhe_def Let_def)
  qed
qed

lemma rhe_ge: "of_int k \<le> m \<Longrightarrow> k \<le> rhe m"
proof -
  assume "of_int k \<le> m"
  then have "k \<le> \<lfloor>m\<rfloor>" by (simp add: le_floor_iff)
  then show ?thesis by (auto simp: rhe_def Let_def)
qed

lemma rnd_0 [simp]: "rnd 0 = 0"
  by (simp add: rnd_def)

lemma rnd_nonneg: "0 \<le> x \<Longrightarrow> 0 \<le> rnd x"
proof -
  assume x: "0 \<le> x"
  have "\<And>t. 0 \<le> rhe (x / 2 powi t)"
    using x by (intro rhe_ge) simp
  then show ?thesis by (simp add: rnd_def Let_def)
qed

lemma rnd_pos_def:
  "0 < x \<Longrightarrow> rnd x = of_int (rhe (x / 2 powi (max (expo x) (- 1022) - 52))) * 2 powi (max (expo x) (- 1022) - 52)"
  by (simp add: rnd_def Let_def)

lemma powi_of_int: "0 \<le> n \<Longrightarrow> (2::rat) powi n = of_int (2 ^ nat n)"
  by (simp add: power_int_def)

lemma rnd_repr_less:
  assumes "0 < k" and "k < 2 ^ 53" and "- 1074 \<le> t"
  shows "rnd (of_int k * 2 powi t) = of_int k * 2 powi t"
proof -
  define x :: rat where "x = of_int k * 2 powi t"
  define u where "u = max (expo x) (- 1022) - 52"
  have x: "0 < x" using assms(1) by (simp add: x_def)
  have "(of_int k :: rat) < of_int (2 ^ 53)" using assms(2) by (simp only: of_int_less_iff)
  then have "x < 2 powi 53 * 2 powi t" unfolding x_def by (simp add: mult_strict_right_mono)
  also have "\<dots> = 2 powi (53 + t)" by (simp add: power_int_add)
  finally have "2 powi expo x < (2::rat) powi (53 + t)" using expo_bounds(1) [OF x] by linarith
  then have "expo x < 53 + t" by (rule powi_less_imp)
  then have ut: "u \<le> t" using assms(3) by (simp add: u_def)
  have "x / 2 powi u = of_int k * 2 powi (t - u)"
    by (simp add: x_def power_int_diff)
  also have "\<dots> = of_int (k * 2 ^ nat (t - u))"
    using ut by (simp add: powi_of_int)
  finally have m: "x / 2 powi u = of_int (k * 2 ^ nat (t - u))" .
  have "rnd x = of_int (rhe (x / 2 powi u)) * 2 powi u"
    using x by (simp add: rnd_pos_def u_def)
  also have "\<dots> = x / 2 powi u * 2 powi u" by (simp only: m rhe_of_int)
  also have "\<dots> = x" by simp
  finally show ?thesis by (simp add: x_def)
qed

lemma rnd_repr:
  assumes "0 \<le> k" and "k \<le> 2 ^ 53" and "- 1074 \<le> t"
  shows "rnd (of_int k * 2 powi t) = of_int k * 2 powi t"
proof -
  consider "k = 0" | "0 < k" "k < 2 ^ 53" | "k = 2 ^ 53" using assms(1,2) by linarith
  then show ?thesis
  proof cases
    case 1
    then show ?thesis by simp
  next
    case 2
    then show ?thesis using assms(3) by (rule rnd_repr_less)
  next
    case 3
    have "of_int k * (2::rat) powi t = of_int (2 ^ 52) * 2 powi (t + 1)"
      by (simp add: 3 power_int_add)
    moreover have "rnd (of_int (2 ^ 52) * 2 powi (t + 1)) = of_int (2 ^ 52) * 2 powi (t + 1)"
      using assms(3) by (intro rnd_repr_less) simp_all
    ultimately show ?thesis by simp
  qed
qed

lemma rnd_1 [simp]: "rnd 1 = 1"
  using rnd_repr [of 1 0] by simp

lemma rnd_scaled:
  assumes "0 < x"
  defines "u \<equiv> max (expo x) (- 1022) - 52"
  shows "rhe (x / 2 powi u) \<le> 2 ^ 53" and "- 1074 \<le> u"
proof -
  show u: "- 1074 \<le> u" by (simp add: u_def)
  have "expo x - 52 \<le> u" by (simp add: u_def)
  then have "(2::rat) powi (expo x - 52) \<le> 2 powi u" by (intro power_int_increasing) simp_all
  then have "x / 2 powi u \<le> x / 2 powi (expo x - 52)"
    using assms(1) by (intro divide_left_mono) simp_all
  also have "\<dots> < 2 powi (expo x + 1) / 2 powi (expo x - 52)"
    using expo_bounds(2) [OF assms(1)] by (intro divide_strict_right_mono) simp_all
  also have "\<dots> = 2 powi 53" by (simp flip: power_int_diff)
  finally have "x / 2 powi u \<le> of_int (2 ^ 53)" by simp
  then show "rhe (x / 2 powi u) \<le> 2 ^ 53" by (rule rhe_le)
qed

lemma rnd_idem: "0 \<le> x \<Longrightarrow> rnd (rnd x) = rnd x"
proof (cases "x = 0")
  case True
  then show ?thesis by simp
next
  case False
  assume "0 \<le> x"
  with False have x: "0 < x" by simp
  define u where "u = max (expo x) (- 1022) - 52"
  have r: "rnd x = of_int (rhe (x / 2 powi u)) * 2 powi u"
    using x by (simp add: rnd_pos_def u_def)
  have "0 \<le> rhe (x / 2 powi u)" using x by (intro rhe_ge) simp
  then show ?thesis
    unfolding r using rnd_scaled [OF x] unfolding u_def [symmetric] by (intro rnd_repr)
qed

lemma rnd_le_pow:
  assumes "x \<le> 2 powi j" and "- 1074 \<le> j" and "0 \<le> x"
  shows "rnd x \<le> 2 powi j"
proof (cases "x = 0")
  case True
  then show ?thesis by simp
next
  case False
  with assms(3) have x: "0 < x" by simp
  define u where "u = max (expo x) (- 1022) - 52"
  have r: "rnd x = of_int (rhe (x / 2 powi u)) * 2 powi u"
    using x by (simp add: rnd_pos_def u_def)
  have "2 powi expo x \<le> (2::rat) powi j" using expo_bounds(1) [OF x] assms(1) by linarith
  then have "expo x \<le> j" using power_int_strict_increasing [of j "expo x" "2::rat"]
    by (cases "expo x \<le> j") auto
  then have uj: "u \<le> j" using assms(2) by (simp add: u_def)
  have "x / 2 powi u \<le> 2 powi j / 2 powi u"
    using assms(1) by (intro divide_right_mono) simp_all
  also have "\<dots> = 2 powi (j - u)" by (simp add: power_int_diff)
  also have "\<dots> = of_int (2 ^ nat (j - u))" using uj by (simp add: powi_of_int)
  finally have "rhe (x / 2 powi u) \<le> 2 ^ nat (j - u)" by (rule rhe_le)
  then have "(of_int (rhe (x / 2 powi u)) :: rat) \<le> of_int (2 ^ nat (j - u))"
    by (simp only: of_int_le_iff)
  then have "rnd x \<le> of_int (2 ^ nat (j - u)) * 2 powi u"
    unfolding r by (intro mult_right_mono) simp_all
  also have "\<dots> = 2 powi (j - u) * 2 powi u" using uj by (simp add: powi_of_int)
  also have "\<dots> = 2 powi j" by (simp flip: power_int_add)
  finally show ?thesis .
qed

section \<open>The frame row by row\<close>

lemma length_next_row [simp]: "length (next_row p) = length p"
  by (simp add: next_row_def)

lemma next_row_nth: "y < length p \<Longrightarrow> next_row p ! y = cell p y"
  by (simp add: next_row_def)

lemma fold_fill_row:
  "m \<le> length d \<Longrightarrow>
     length (fold fill_row [0..<m] d) = length d \<and>
     (\<forall>i<m. fold fill_row [0..<m] d ! i = (next_row ^^ i) (d ! 0)) \<and>
     (\<forall>i\<ge>m. fold fill_row [0..<m] d ! i = d ! i)"
proof (induction m)
  case 0
  then show ?case by simp
next
  case (Suc m)
  let ?e = "fold fill_row [0..<m] d"
  from Suc have ih: "length ?e = length d"
    "\<forall>i<m. ?e ! i = (next_row ^^ i) (d ! 0)" "\<forall>i\<ge>m. ?e ! i = d ! i"
    by simp_all
  have step: "fold fill_row [0..<Suc m] d = fill_row m ?e" by simp
  show ?case
  proof (cases m)
    case 0
    then show ?thesis by (simp add: fill_row_def)
  next
    case (Suc k)
    have prev: "?e ! k = (next_row ^^ k) (d ! 0)" using ih(2) Suc by simp
    have upd: "fill_row m ?e = ?e[m := (next_row ^^ m) (d ! 0)]"
      using Suc prev by (simp add: fill_row_def)
    have mlt: "m < length ?e" using ih(1) \<open>Suc m \<le> length d\<close> by simp
    show ?thesis
      unfolding step upd using ih mlt by (auto simp: nth_list_update less_Suc_eq)
  qed
qed

lemma propagate_length [simp]: "length (propagate d) = length d"
  using fold_fill_row [of "length d" d] by (simp add: propagate_def)

lemma propagate_nth: "i < length d \<Longrightarrow> propagate d ! i = (next_row ^^ i) (d ! 0)"
  using fold_fill_row [of "length d" d] by (simp add: propagate_def)

lemma place_start_zero_frame:
  "0 < r \<Longrightarrow> place_start sp (zero_frame w r) =
     impulse w sp # replicate (nat r - 1) (replicate (nat (2 * w - 1)) 0)"
proof -
  assume "0 < r"
  then obtain k where k: "nat r = Suc k" by (cases "nat r") auto
  show ?thesis
    by (simp add: place_start_def zero_frame_def impulse_def k cong: map_cong)
qed

lemma place_start_length [simp]: "length (place_start sp d) = length d"
  by (simp add: place_start_def split: list.splits)

lemma plinko_stat_rows:
  assumes "max_width self = Some w" "number_rows self = Some r" "0 < r"
  shows "\<exists>d. plinko_stat self = Inr (d, nonzero (last d)) \<and> length d = nat r \<and>
           (\<forall>i<nat r. d ! i = (next_row ^^ i) (impulse w (starting_pos self)))"
proof -
  let ?d0 = "place_start (starting_pos self) (zero_frame w r)"
  have len: "length ?d0 = nat r" by (simp add: zero_frame_def)
  have d00: "?d0 ! 0 = impulse w (starting_pos self)"
    using assms(3) by (simp add: place_start_zero_frame)
  have ne: "propagate ?d0 \<noteq> []" using len assms(3) by (metis propagate_length length_0_conv nat_0_iff not_le)
  have "plinko_stat self = Inr (propagate ?d0, nonzero (last (propagate ?d0)))"
    using assms ne by (simp add: plinko_stat_def Let_def)
  moreover have "length (propagate ?d0) = nat r" using len by simp
  moreover have "\<forall>i<nat r. propagate ?d0 ! i = (next_row ^^ i) (impulse w (starting_pos self))"
    using len d00 by (simp add: propagate_nth)
  ultimately show ?thesis by blast
qed

section \<open>Properties of one propagation step\<close>

lemma doubles_nth: "doubles p \<Longrightarrow> i < length p \<Longrightarrow> 0 \<le> p ! i \<and> rnd (p ! i) = p ! i"
  by (simp add: doubles_def)

lemma rnd_half_idem: "0 \<le> v \<Longrightarrow> rnd (rnd (v / 2)) = rnd (v / 2)"
  by (simp add: rnd_idem)

lemma lpart_double:
  assumes "doubles p" and "y < length p"
  shows "0 \<le> lpart p y" and "rnd (lpart p y) = lpart p y"
proof -
  have z: "0 < length p" using assms(2) by (cases p) simp_all
  have a: "0 \<le> p ! 0" "rnd (p ! 0) = p ! 0" using doubles_nth [OF assms(1) z] by simp_all
  have "y - 1 < length p" using assms(2) by simp
  from doubles_nth [OF assms(1) this] have b: "0 \<le> p ! (y - 1)" by simp
  show "0 \<le> lpart p y" using a b by (simp add: lpart_def rnd_nonneg)
  show "rnd (lpart p y) = lpart p y" using a b by (simp add: lpart_def rnd_idem)
qed

lemma rpart_double:
  assumes "doubles p"
  shows "0 \<le> rpart p y" and "rnd (rpart p y) = rpart p y"
proof -
  have b: "\<not> length p \<le> y + 1 \<Longrightarrow> 0 \<le> p ! (y + 1) \<and> rnd (p ! (y + 1)) = p ! (y + 1)"
    using doubles_nth [OF assms, of "y + 1"] by simp
  show "0 \<le> rpart p y" using b by (auto simp: rpart_def rnd_nonneg)
  show "rnd (rpart p y) = rpart p y" using b by (auto simp: rpart_def rnd_idem)
qed

lemma cell_parts:
  assumes "doubles p" and "y < length p"
  shows "cell p y = rnd (lpart p y + rpart p y)"
proof -
  have v1: "(if y = 1 then rnd (0 + (if int y - 1 \<ge> 0 then p ! (y - 1) else 0))
             else rnd (0 + rnd ((if int y - 1 \<ge> 0 then p ! (y - 1) else 0) / 2))) = lpart p y"
  proof -
    have z: "0 < length p" using assms(2) by (cases p) simp_all
    have a: "rnd (p ! 0) = p ! 0" using doubles_nth [OF assms(1) z] by simp
    have "y - 1 < length p" using assms(2) by simp
    from doubles_nth [OF assms(1) this] have b: "0 \<le> p ! (y - 1)" by simp
    show ?thesis using a b by (auto simp: lpart_def rnd_idem)
  qed
  have v2: "(if int y = int (length p) - 1 - 1
             then rnd (lpart p y + (if int y + 1 \<le> int (length p) - 1 then p ! (y + 1) else 0))
             else rnd (lpart p y + rnd ((if int y + 1 \<le> int (length p) - 1 then p ! (y + 1) else 0) / 2)))
            = rnd (lpart p y + rpart p y)"
    by (auto simp: rpart_def)
  show ?thesis unfolding cell_def Let_def v1 v2 ..
qed

lemma cell_double:
  assumes "doubles p" and "y < length p"
  shows "0 \<le> cell p y" and "rnd (cell p y) = cell p y"
proof -
  have s: "0 \<le> lpart p y + rpart p y"
    using lpart_double(1) [OF assms] rpart_double(1) [OF assms(1), of y] by simp
  show "0 \<le> cell p y" using s by (simp add: cell_parts [OF assms] rnd_nonneg)
  show "rnd (cell p y) = cell p y" using s by (simp add: cell_parts [OF assms] rnd_idem)
qed

lemma next_row_doubles: "doubles p \<Longrightarrow> doubles (next_row p)"
  unfolding doubles_def [of "next_row p"] by (auto simp: next_row_def cell_double)

lemma iter_doubles: "doubles p \<Longrightarrow> doubles ((next_row ^^ i) p)"
  by (induction i) (simp_all add: next_row_doubles)

lemma impulse_doubles: "doubles (impulse w sp)"
  by (auto simp: doubles_def impulse_def)

lemma length_iter [simp]: "length ((next_row ^^ i) p) = length p"
  by (induction i) simp_all

lemma length_impulse [simp]: "length (impulse w sp) = nat (2 * w - 1)"
  by (simp add: impulse_def)

lemma doubles_replicate: "doubles (replicate n 0)"
  by (simp add: doubles_def)

lemma next_row_zero: "next_row (replicate n 0) = replicate n 0"
proof (rule nth_equalityI)
  show "length (next_row (replicate n 0)) = length (replicate n (0::rat))" by simp
next
  fix y assume "y < length (next_row (replicate n 0))"
  then have y: "y < n" by simp
  then have "cell (replicate n 0) y = 0"
    using cell_parts [OF doubles_replicate, of y n] by (simp add: lpart_def rpart_def)
  then show "next_row (replicate n 0) ! y = replicate n 0 ! y"
    using y by (simp add: next_row_nth)
qed

lemma iter_zero: "(next_row ^^ i) (replicate n 0) = replicate n 0"
  by (induction i) (simp_all add: next_row_zero)

lemma impulse_nonneg: "\<forall>v\<in>set (impulse w sp). 0 \<le> v"
  by (auto simp: impulse_def)

lemma impulse_zero: "s \<le> 0 \<Longrightarrow> impulse w (Some s) = replicate (nat (2 * w - 1)) 0"
  by (rule nth_equalityI) (auto simp: impulse_def)

lemma impulse_None: "impulse w None = replicate (nat (2 * w - 1)) 0"
  by (rule nth_equalityI) (auto simp: impulse_def)

lemma nonzero_zero: "nonzero (replicate n 0) = []"
  by (auto simp: nonzero_def filter_empty_conv dest!: set_zip_rightD)

lemma sum_list_impulse:
  assumes "1 \<le> s" "s \<le> 2 * w - 1"
  shows "sum_list (impulse w (Some s)) = 1"
proof -
  let ?n = "nat (2 * w - 1)"
  have eq: "\<And>y. (Some (int y + 1) = Some s) = (y = nat (s - 1))" using assms by auto
  have "sum_list (impulse w (Some s)) = (\<Sum>y<?n. if y = nat (s - 1) then 1 else 0)"
    unfolding impulse_def eq
    by (simp add: interv_sum_list_conv_sum_set_nat atLeast0LessThan)
  also have "\<dots> = 1" using assms by simp
  finally show ?thesis .
qed

lemma lpart_rev:
  assumes "y < length p"
  shows "lpart (rev p) y = rpart p (length p - 1 - y)"
proof -
  consider "y = 0" | "y = 1" | "2 \<le> y" by linarith
  then show ?thesis
  proof cases
    case 1
    then show ?thesis using assms by (simp add: lpart_def rpart_def)
  next
    case 2
    have "0 < length p" using assms by (cases p) simp_all
    from rev_nth [OF this] have "rev p ! 0 = p ! (length p - 1)" by simp
    moreover have "length p - 1 - 1 + 1 = length p - 1" "length p - 1 - 1 + 2 = length p"
      using assms 2 by simp_all
    ultimately show ?thesis using assms 2 by (simp add: lpart_def rpart_def)
  next
    case 3
    then have "rev p ! (y - 1) = p ! (length p - y)" using assms by (simp add: rev_nth)
    moreover have "length p - 1 - y + 1 = length p - y" using assms by simp
    moreover have "y \<noteq> 0" "y \<noteq> 1" using 3 by simp_all
    moreover have "\<not> length p \<le> length p - 1 - y + 1" "length p - 1 - y + 2 \<noteq> length p"
      using assms 3 by simp_all
    ultimately show ?thesis by (simp only: lpart_def rpart_def length_rev if_False)
  qed
qed

lemma rpart_rev:
  assumes "y < length p"
  shows "rpart (rev p) y = lpart p (length p - 1 - y)"
proof -
  consider "length p = y + 1" | "length p = y + 2" | "y + 3 \<le> length p" using assms by linarith
  then show ?thesis
  proof cases
    case 1
    then show ?thesis by (simp add: lpart_def rpart_def)
  next
    case 2
    then have "rev p ! (y + 1) = p ! 0" by (simp add: rev_nth)
    then show ?thesis using 2 by (simp add: lpart_def rpart_def)
  next
    case 3
    then have "rev p ! (y + 1) = p ! (length p - 1 - y - 1)" by (simp add: rev_nth)
    moreover have "length p - 1 - y \<noteq> 0" "length p - 1 - y \<noteq> 1" using 3 by simp_all
    moreover have "\<not> length p \<le> y + 1" "y + 2 \<noteq> length p" using 3 by simp_all
    ultimately show ?thesis by (simp only: lpart_def rpart_def length_rev if_False)
  qed
qed

lemma zip_upt_nth: "zip [0..<length xs] xs = map (\<lambda>c. (c, xs ! c)) [0..<length xs]"
  by (rule nth_equalityI) simp_all

lemma impulse_rev: "impulse w (Some (2 * w - s)) = rev (impulse w (Some s))"
  by (rule nth_equalityI) (auto simp: impulse_def rev_nth)

lemma nonzero_set: "(c, v) \<in> set (nonzero row) \<longleftrightarrow> c < length row \<and> row ! c = v \<and> v \<noteq> 0"
  by (auto simp: nonzero_def zip_upt_nth)

lemma nonzero_keys: "map fst (nonzero row) = filter (\<lambda>c. row ! c \<noteq> 0) [0..<length row]"
proof -
  have z: "zip [0..<length row] row = map (\<lambda>c. (c, row ! c)) [0..<length row]"
    by (rule nth_equalityI) simp_all
  show ?thesis unfolding nonzero_def z by (simp add: filter_map comp_def)
qed

lemma nonzero_sorted: "sorted_wrt (<) (map fst (nonzero row))"
  unfolding nonzero_keys by (rule sorted_wrt_filter) simp

lemma nonzero_rev:
  "nonzero (rev row) = rev (map (\<lambda>(c, v). (length row - 1 - c, v)) (nonzero row))"
proof -
  let ?n = "length row"
  have z: "\<And>xs. zip [0..<length xs] xs = map (\<lambda>c. (c, xs ! c)) [0..<length xs]"
    by (rule nth_equalityI) simp_all
  have r: "rev [0..<?n] = map (\<lambda>c. ?n - 1 - c) [0..<?n]"
    by (rule nth_equalityI) (simp_all add: rev_nth)
  have "nonzero (rev row) = filter (\<lambda>(c, v). v \<noteq> 0) (map (\<lambda>c. (c, rev row ! c)) [0..<?n])"
    unfolding nonzero_def using z [of "rev row"] by simp
  also have "map (\<lambda>c. (c, rev row ! c)) [0..<?n] = map (\<lambda>c. (?n - 1 - (?n - 1 - c), row ! (?n - 1 - c))) [0..<?n]"
    by (rule map_cong) (auto simp: rev_nth)
  also have "\<dots> = map (\<lambda>c. (?n - 1 - c, row ! c)) (rev [0..<?n])"
    unfolding r by (simp add: comp_def)
  also have "filter (\<lambda>(c, v). v \<noteq> 0) \<dots> = rev (map (\<lambda>(c, v). (?n - 1 - c, v)) (nonzero row))"
    unfolding nonzero_def z [of row] by (simp add: rev_map rev_filter filter_map comp_def)
  finally show ?thesis .
qed

lemma impulse_update:
  assumes "1 \<le> s" "s \<le> 2 * w - 1"
  shows "impulse w (Some s) = (replicate (nat (2 * w - 1)) 0)[nat (s - 1) := 1]"
  using assms by (intro nth_equalityI) (auto simp: impulse_def nth_list_update)

lemma singleton_list: "distinct xs \<Longrightarrow> set xs = {a} \<Longrightarrow> xs = [a]"
  by (metis distinct.simps(2) empty_iff empty_set insert_iff list.exhaust list.set_intros(1) list.set_intros(2) singletonD)

lemma nonzero_distinct: "distinct (nonzero row)"
  by (simp add: nonzero_def distinct_zipI1)

lemma nonzero_impulse:
  assumes "1 \<le> s" "s \<le> 2 * w - 1"
  shows "nonzero (impulse w (Some s)) = [(nat (s - 1), 1)]"
proof (rule singleton_list [OF nonzero_distinct])
  have k: "nat (s - 1) < nat (2 * w - 1)" using assms by simp
  show "set (nonzero (impulse w (Some s))) = {(nat (s - 1), 1)}"
    using k by (auto simp: nonzero_set impulse_update [OF assms] nth_list_update split: if_splits)
qed

lemma cell_rev:
  assumes "doubles p" and "y < length p"
  shows "cell (rev p) y = cell p (length p - 1 - y)"
proof -
  have d: "doubles (rev p)" using assms(1) by (simp add: doubles_def)
  have "cell (rev p) y = rnd (lpart (rev p) y + rpart (rev p) y)"
    using cell_parts [OF d, of y] assms(2) by simp
  also have "\<dots> = rnd (lpart p (length p - 1 - y) + rpart p (length p - 1 - y))"
    by (simp add: lpart_rev [OF assms(2)] rpart_rev [OF assms(2)] add.commute)
  also have "\<dots> = cell p (length p - 1 - y)"
    using cell_parts [OF assms(1), of "length p - 1 - y"] assms(2) by simp
  finally show ?thesis .
qed

lemma next_row_rev: "doubles p \<Longrightarrow> next_row (rev p) = rev (next_row p)"
  by (rule nth_equalityI) (simp_all add: next_row_nth rev_nth cell_rev)

lemma iter_rev: "doubles p \<Longrightarrow> (next_row ^^ i) (rev p) = rev ((next_row ^^ i) p)"
  by (induction i) (simp_all add: next_row_rev iter_doubles)

lemma cell_half:
  assumes "doubles p" and "c < length p" and "c \<noteq> 1" and "c + 2 \<noteq> length p"
  shows "cell p c = rnd (rnd ((if 0 < c then p ! (c - 1) else 0) / 2)
                       + rnd ((if c + 1 < length p then p ! (c + 1) else 0) / 2))"
  using assms(3,4) by (auto simp: cell_parts [OF assms(1,2)] lpart_def rpart_def)

lemma cell_second:
  assumes "doubles p" and "3 \<le> length p"
  shows "cell p 1 = rnd (p ! 0 + (if length p = 3 then p ! 2 else rnd (p ! 2 / 2)))"
proof -
  have "1 < length p" using assms(2) by simp
  from cell_parts [OF assms(1) this] show ?thesis
    using assms(2) by (auto simp: lpart_def rpart_def numeral_2_eq_2)
qed

lemma cell_before_last:
  assumes "doubles p" and "3 \<le> length p"
  shows "cell p (length p - 2) =
           rnd ((if length p = 3 then p ! (length p - 3) else rnd (p ! (length p - 3) / 2))
                + p ! (length p - 1))"
proof -
  have lt: "length p - 2 < length p" using assms(2) by simp
  have "length p - 2 + 1 = length p - 1" "length p - 2 + 2 = length p" "length p - 2 - 1 = length p - 3"
    "length p - 2 \<noteq> 0" "(length p - 2 = 1) = (length p = 3)" "\<not> length p \<le> length p - 1"
    using assms(2) by auto
  then show ?thesis by (simp add: cell_parts [OF assms(1) lt] lpart_def rpart_def)
qed

lemma sum_lexact: "(\<Sum>y<Suc (Suc k). lexact p y) = p ! 0 + (\<Sum>i<k. p ! Suc i) / 2"
proof -
  have "(\<Sum>y<Suc (Suc k). lexact p y) = lexact p 0 + (lexact p 1 + (\<Sum>i<k. lexact p (Suc (Suc i))))"
    by (simp only: sum.lessThan_Suc_shift One_nat_def)
  also have "\<dots> = p ! 0 + (\<Sum>i<k. p ! Suc i / 2)"
    by (simp add: lexact_def)
  finally show ?thesis by (simp add: sum_divide_distrib)
qed

lemma sum_rexact:
  "length p = Suc (Suc k) \<Longrightarrow> (\<Sum>y<Suc (Suc k). rexact p y) = (\<Sum>i<k. p ! Suc i) / 2 + p ! Suc k"
proof -
  assume len: "length p = Suc (Suc k)"
  have "(\<Sum>y<Suc (Suc k). rexact p y) = (\<Sum>y<k. rexact p y) + rexact p k + rexact p (Suc k)"
    by simp
  also have "\<dots> = (\<Sum>i<k. p ! Suc i / 2) + p ! Suc k"
    using len by (simp add: rexact_def)
  finally show ?thesis by (simp add: sum_divide_distrib)
qed

lemma sum_row: "(\<Sum>y<Suc (Suc k). (p::rat list) ! y) = p ! 0 + (\<Sum>i<k. p ! Suc i) + p ! Suc k"
proof -
  have "(\<Sum>y<Suc (Suc k). p ! y) = (\<Sum>y<Suc k. p ! y) + p ! Suc k" by simp
  also have "(\<Sum>y<Suc k. p ! y) = p ! 0 + (\<Sum>i<k. p ! Suc i)"
    by (simp only: sum.lessThan_Suc_shift)
  finally show ?thesis .
qed

lemma length_next_exact [simp]: "length (next_exact p) = length p"
  by (simp add: next_exact_def)

lemma sum_list_next_exact:
  assumes "2 \<le> length p"
  shows "sum_list (next_exact p) = sum_list p"
proof -
  from assms obtain k where len: "length p = Suc (Suc k)"
    by (metis Suc_le_D numeral_2_eq_2 Suc_le_mono)
  have "sum_list (next_exact p) = (\<Sum>y<length p. lexact p y + rexact p y)"
    by (simp add: next_exact_def interv_sum_list_conv_sum_set_nat atLeast0LessThan)
  also have "\<dots> = (\<Sum>y<Suc (Suc k). lexact p y) + (\<Sum>y<Suc (Suc k). rexact p y)"
    by (simp only: len sum.distrib)
  also have "\<dots> = p ! 0 + (\<Sum>i<k. p ! Suc i) + p ! Suc k"
    by (simp only: sum_lexact sum_rexact [OF len])
  also have "\<dots> = (\<Sum>y<length p. p ! y)"
    by (simp only: len sum_row)
  also have "\<dots> = sum_list p"
    by (simp add: sum_list_sum_nth atLeast0LessThan)
  finally show ?thesis .
qed

lemma sum_list_next_exact_le:
  assumes "\<forall>v\<in>set p. 0 \<le> v"
  shows "sum_list (next_exact p) \<le> sum_list p"
proof (cases "2 \<le> length p")
  case True
  then show ?thesis by (simp add: sum_list_next_exact)
next
  case False
  then consider "p = []" | v where "p = [v]"
    by (cases p; cases "tl p") auto
  then show ?thesis
  proof cases
    case 1
    then show ?thesis by (simp add: next_exact_def)
  next
    case 2
    then show ?thesis using assms by (simp add: next_exact_def lexact_def rexact_def)
  qed
qed

lemma next_exact_nth: "y < length p \<Longrightarrow> next_exact p ! y = lexact p y + rexact p y"
  by (simp add: next_exact_def)

lemma exact_half:
  assumes "c < length p" and "c \<noteq> 1" and "c + 2 \<noteq> length p"
  shows "next_exact p ! c = (if 0 < c then p ! (c - 1) else 0) / 2
                          + (if c + 1 < length p then p ! (c + 1) else 0) / 2"
  using assms(2,3) by (auto simp: next_exact_nth [OF assms(1)] lexact_def rexact_def)

lemma exact_second:
  assumes "3 \<le> length p"
  shows "next_exact p ! 1 = p ! 0 + (if length p = 3 then p ! 2 else p ! 2 / 2)"
proof -
  have "1 < length p" using assms by simp
  from next_exact_nth [OF this] show ?thesis
    using assms by (auto simp: lexact_def rexact_def numeral_2_eq_2)
qed

lemma exact_before_last:
  assumes "3 \<le> length p"
  shows "next_exact p ! (length p - 2) =
           (if length p = 3 then p ! (length p - 3) else p ! (length p - 3) / 2) + p ! (length p - 1)"
proof -
  have lt: "length p - 2 < length p" using assms by simp
  have "length p - 2 + 1 = length p - 1" "length p - 2 + 2 = length p" "length p - 2 - 1 = length p - 3"
    "length p - 2 \<noteq> 0" "(length p - 2 = 1) = (length p = 3)" "\<not> length p \<le> length p - 1"
    using assms by auto
  then show ?thesis by (simp add: next_exact_nth [OF lt] lexact_def rexact_def)
qed

section \<open>Rows computed without rounding\<close>

text \<open>
  Up to row 53 every cell is a multiple of \<open>1 / 2 ^ 53\<close> that is at most 1, hence a
  double: no operation rounds, and the frame is the one of exact arithmetic.
\<close>

lemma dyadic_nonneg: "dyadic i v \<Longrightarrow> 0 \<le> v"
  by (auto simp: dyadic_def)

lemma dyadic_0 [simp]: "dyadic i 0"
  by (auto simp: dyadic_def intro: exI [of _ 0])

lemma dyadic_1 [simp]: "dyadic 0 1"
  by (auto simp: dyadic_def intro: exI [of _ 1])

lemma dyadic_half: "dyadic i v \<Longrightarrow> dyadic (Suc i) (v / 2)"
  by (auto simp: dyadic_def)

lemma dyadic_lift: "dyadic i v \<Longrightarrow> dyadic (Suc i) v"
proof -
  assume "dyadic i v"
  then obtain k :: int where k: "0 \<le> k" "v = of_int k / 2 ^ i" by (auto simp: dyadic_def)
  then have "0 \<le> 2 * k \<and> v = of_int (2 * k) / 2 ^ Suc i" by simp
  then show ?thesis unfolding dyadic_def by blast
qed

lemma dyadic_add: "dyadic i a \<Longrightarrow> dyadic i b \<Longrightarrow> dyadic i (a + b)"
proof -
  assume "dyadic i a" "dyadic i b"
  then obtain k l :: int where "0 \<le> k" "a = of_int k / 2 ^ i" "0 \<le> l" "b = of_int l / 2 ^ i"
    by (auto simp: dyadic_def)
  then have "0 \<le> k + l \<and> a + b = of_int (k + l) / 2 ^ i" by (simp add: add_divide_distrib)
  then show ?thesis unfolding dyadic_def by blast
qed

lemma dyadic_repr:
  assumes "dyadic i v" and "v \<le> 1" and "i \<le> 53"
  shows "rnd v = v"
proof -
  from assms(1) obtain k :: int where k: "0 \<le> k" "v = of_int k / 2 ^ i" by (auto simp: dyadic_def)
  have "of_int k \<le> (2::rat) ^ i" using assms(2) unfolding k(2) by (simp add: divide_le_eq)
  also have "\<dots> \<le> 2 ^ 53" using assms(3) by (intro power_increasing) simp_all
  finally have "(of_int k :: rat) \<le> of_int (2 ^ 53)" by simp
  then have k53: "k \<le> 2 ^ 53" by (simp only: of_int_le_iff)
  have v: "v = of_int k * 2 powi (- int i)"
    unfolding k(2) by (simp add: power_int_minus divide_inverse)
  show ?thesis unfolding v using k(1) k53 assms(3) by (intro rnd_repr) simp_all
qed

lemma elem_le_sum_list_rat:
  fixes p :: "rat list"
  shows "\<forall>v\<in>set p. 0 \<le> v \<Longrightarrow> x \<in> set p \<Longrightarrow> x \<le> sum_list p"
proof (induction p)
  case Nil
  then show ?case by simp
next
  case (Cons a p)
  have "0 \<le> sum_list p" using Cons.prems(1) by (intro sum_list_nonneg) simp
  then show ?case using Cons by auto
qed

lemma good_le1: "good i p \<Longrightarrow> v \<in> set p \<Longrightarrow> v \<le> 1"
proof -
  assume g: "good i p" and v: "v \<in> set p"
  have "\<forall>v\<in>set p. 0 \<le> v" using g by (auto simp: good_def dyadic_nonneg)
  from elem_le_sum_list_rat [OF this v] show ?thesis using g by (simp add: good_def)
qed

lemma good_doubles: "good i p \<Longrightarrow> i \<le> 53 \<Longrightarrow> doubles p"
  unfolding doubles_def using good_le1 [of i p]
  by (auto simp: good_def dyadic_nonneg dyadic_repr)

lemma lexact_dyadic:
  assumes "good i p" and "y < length p"
  shows "dyadic (Suc i) (lexact p y)"
proof -
  have "0 < length p" "y - 1 < length p" using assms(2) by linarith+
  then have "dyadic i (p ! 0)" "dyadic i (p ! (y - 1))" using assms(1) by (simp_all add: good_def)
  then show ?thesis by (simp add: lexact_def dyadic_lift dyadic_half)
qed

lemma rexact_dyadic:
  assumes "good i p"
  shows "dyadic (Suc i) (rexact p y)"
proof -
  have "\<not> length p \<le> y + 1 \<Longrightarrow> dyadic i (p ! (y + 1))" using assms by (simp add: good_def)
  then show ?thesis by (auto simp: rexact_def dyadic_lift dyadic_half)
qed

lemma good_next_exact:
  assumes "good i p"
  shows "good (Suc i) (next_exact p)"
proof -
  have nn: "\<forall>v\<in>set p. 0 \<le> v" using assms by (auto simp: good_def dyadic_nonneg)
  have "sum_list (next_exact p) \<le> 1"
    using sum_list_next_exact_le [OF nn] assms by (simp add: good_def)
  moreover have "\<forall>v\<in>set (next_exact p). dyadic (Suc i) v"
    using assms by (auto simp: next_exact_def lexact_dyadic rexact_dyadic dyadic_add)
  ultimately show ?thesis by (simp add: good_def)
qed

lemma half_exact:
  assumes "good i p" and "k < length p" and "Suc i \<le> 53"
  shows "rnd (p ! k / 2) = p ! k / 2"
proof -
  have m: "p ! k \<in> set p" using assms(2) by simp
  then have d: "dyadic i (p ! k)" using assms(1) by (simp add: good_def)
  have "p ! k \<le> 1" using good_le1 [OF assms(1) m] .
  moreover have "0 \<le> p ! k" using d by (rule dyadic_nonneg)
  ultimately have "p ! k / 2 \<le> 1" by simp
  with dyadic_half [OF d] assms(3) show ?thesis by (intro dyadic_repr)
qed

lemma next_row_exact:
  assumes "good i p" and "Suc i \<le> 53"
  shows "next_row p = next_exact p"
proof (rule nth_equalityI)
  show "length (next_row p) = length (next_exact p)" by simp
next
  fix y assume "y < length (next_row p)"
  then have y: "y < length p" by simp
  have i: "i \<le> 53" using assms(2) by simp
  have d: "doubles p" using good_doubles [OF assms(1) i] .
  have l: "lpart p y = lexact p y"
  proof -
    have "y - 1 < length p" using y by simp
    from half_exact [OF assms(1) this assms(2)] show ?thesis by (simp add: lpart_def lexact_def)
  qed
  have r: "rpart p y = rexact p y"
  proof -
    have "\<not> length p \<le> y + 1 \<Longrightarrow> rnd (p ! (y + 1) / 2) = p ! (y + 1) / 2"
      using half_exact [OF assms(1) _ assms(2), of "y + 1"] by simp
    then show ?thesis by (auto simp: rpart_def rexact_def)
  qed
  have e: "next_exact p ! y = lexact p y + rexact p y" using y by (simp add: next_exact_def)
  have "next_exact p ! y \<in> set (next_exact p)" using y by simp
  then have "rnd (next_exact p ! y) = next_exact p ! y"
    using good_next_exact [OF assms(1)] assms(2)
    by (intro dyadic_repr [of "Suc i"]) (auto simp: good_def intro: good_le1)
  then show "next_row p ! y = next_exact p ! y"
    using y by (simp add: next_row_nth cell_parts [OF d y] l r e)
qed

lemma sum_list_zeros [simp]: "sum_list (replicate n (0::rat)) = 0"
  by (induction n) simp_all

lemma impulse_big: "2 * w - 1 < s \<Longrightarrow> impulse w (Some s) = replicate (nat (2 * w - 1)) 0"
  by (rule nth_equalityI) (auto simp: impulse_def)

lemma sum_list_impulse_le: "sum_list (impulse w sp) \<le> 1"
proof (cases sp)
  case None
  then show ?thesis by (simp add: impulse_None)
next
  case (Some s)
  consider "s \<le> 0" | "1 \<le> s" "s \<le> 2 * w - 1" | "2 * w - 1 < s" by linarith
  then show ?thesis
  proof cases
    case 1
    then show ?thesis by (simp add: Some impulse_zero)
  next
    case 2
    then show ?thesis by (simp add: Some sum_list_impulse)
  next
    case 3
    then show ?thesis by (simp add: Some impulse_big)
  qed
qed

lemma good_impulse: "good 0 (impulse w sp)"
  unfolding good_def using sum_list_impulse_le by (auto simp: impulse_def)

lemma iter_exact:
  "i \<le> 53 \<Longrightarrow> (next_row ^^ i) (impulse w sp) = (next_exact ^^ i) (impulse w sp) \<and>
     good i ((next_exact ^^ i) (impulse w sp))"
proof (induction i)
  case 0
  then show ?case by (simp add: good_impulse)
next
  case (Suc i)
  then have ih: "(next_row ^^ i) (impulse w sp) = (next_exact ^^ i) (impulse w sp)"
    "good i ((next_exact ^^ i) (impulse w sp))" by simp_all
  show ?case
    using next_row_exact [OF ih(2) Suc.prems] good_next_exact [OF ih(2)] by (simp add: ih(1))
qed

lemma length_iter_exact [simp]: "length ((next_exact ^^ i) p) = length p"
  by (induction i) simp_all


lemma length_exact_rows [simp]: "length (exact_rows n p) = n"
  by (induction n arbitrary: p) simp_all

lemma exact_rows_nth: "i < n \<Longrightarrow> exact_rows n p ! i = (next_exact ^^ i) p"
proof (induction n arbitrary: p i)
  case 0
  then show ?case by simp
next
  case (Suc n)
  show ?case
  proof (cases i)
    case 0
    then show ?thesis by simp
  next
    case (Suc j)
    then have "j < n" using Suc.prems by simp
    from Suc.IH [OF this] show ?thesis by (simp add: Suc funpow_swap1)
  qed
qed

lemma plinko_stat_exact:
  assumes "max_width self = Some w" and "number_rows self = Some r" and "0 < r" and "r \<le> 54"
  shows "plinko_stat self = exact_stat w r (starting_pos self)"
proof -
  from plinko_stat_rows [OF assms(1,2,3)] obtain d where
    d: "plinko_stat self = Inr (d, nonzero (last d))" "length d = nat r"
      "\<forall>i<nat r. d ! i = (next_row ^^ i) (impulse w (starting_pos self))"
    by blast
  have "d = exact_rows (nat r) (impulse w (starting_pos self))"
  proof (rule nth_equalityI)
    show "length d = length (exact_rows (nat r) (impulse w (starting_pos self)))"
      by (simp add: d(2))
  next
    fix i assume "i < length d"
    then have i: "i < nat r" by (simp add: d(2))
    then have "i \<le> 53" using assms(4) by simp
    from iter_exact [OF this] show "d ! i = exact_rows (nat r) (impulse w (starting_pos self)) ! i"
      using d(3) i by (simp add: exact_rows_nth)
  qed
  then show ?thesis by (simp add: d(1) exact_stat_def Let_def)
qed

lemma plinko_stat_board:
  "0 < r \<Longrightarrow> r \<le> 54 \<Longrightarrow> plinko_stat (board w r s) = exact_stat w r (Some s)"
  using plinko_stat_exact [of "board w r s" w r] by (simp add: board_def new_plugin_def)

text \<open>Two consecutive rows of the returned frame.\<close>

lemma plinko_stat_step:
  assumes "max_width self = Some w" and "number_rows self = Some r" and "0 < i" and "i < nat r"
  shows "\<exists>d. plinko_stat self = Inr (d, nonzero (last d)) \<and> length d = nat r \<and>
           doubles (d ! (i - 1)) \<and> length (d ! (i - 1)) = nat (2 * w - 1) \<and>
           d ! i = next_row (d ! (i - 1)) \<and>
           (i \<le> 53 \<longrightarrow> d ! i = next_exact (d ! (i - 1)))"
proof -
  have r: "0 < r" using assms(4) by simp
  from plinko_stat_rows [OF assms(1,2) r] obtain d where
    d: "plinko_stat self = Inr (d, nonzero (last d))" "length d = nat r"
      "\<forall>i<nat r. d ! i = (next_row ^^ i) (impulse w (starting_pos self))"
    by blast
  obtain k where k: "i = Suc k" using assms(3) by (cases i) auto
  have p: "d ! (i - 1) = (next_row ^^ k) (impulse w (starting_pos self))"
    using d(3) assms(4) k by simp
  have di: "d ! i = next_row (d ! (i - 1))" using d(3) assms(4) k by simp
  have dbl: "doubles (d ! (i - 1))" unfolding p by (rule iter_doubles [OF impulse_doubles])
  have ex: "i \<le> 53 \<longrightarrow> d ! i = next_exact (d ! (i - 1))"
  proof
    assume i: "i \<le> 53"
    then have "k \<le> 53" using k by simp
    from iter_exact [OF this, of w "starting_pos self"] i k show "d ! i = next_exact (d ! (i - 1))"
      unfolding di p using next_row_exact [of k] by simp
  qed
  have len: "length (d ! (i - 1)) = nat (2 * w - 1)" unfolding p by simp
  show ?thesis using d(1,2) dbl di ex len by blast
qed

section \<open>No cell exceeds 2\<close>

lemma half_le_1:
  assumes "0 \<le> v" and "v \<le> 2"
  shows "rnd (v / 2) \<le> 1"
  using rnd_le_pow [of "v / 2" 0] assms by simp

lemma bounded_parts:
  assumes "bounded p" and "y < length p"
  shows "lpart p y \<le> 1" and "rpart p y \<le> 1"
proof -
  have d: "doubles p" and two: "\<forall>v\<in>set p. v \<le> 2" and ne: "p \<noteq> []"
    and e: "p ! 0 \<le> 1" "last p \<le> 1"
    using assms by (auto simp: bounded_def)
  have l: "0 \<le> p ! (y - 1)" "p ! (y - 1) \<le> 2"
    using d two assms(2) by (simp_all add: doubles_def)
  show "lpart p y \<le> 1" using e(1) half_le_1 [OF l] by (simp add: lpart_def)
  have r: "\<not> length p \<le> y + 1 \<Longrightarrow> 0 \<le> p ! (y + 1) \<and> p ! (y + 1) \<le> 2"
    using d two by (simp add: doubles_def)
  have "y + 2 = length p \<Longrightarrow> p ! (y + 1) = last p"
  proof -
    assume "y + 2 = length p"
    then have "length p - 1 = y + 1" by simp
    then show ?thesis using ne by (simp add: last_conv_nth)
  qed
  then show "rpart p y \<le> 1" using e(2) r half_le_1 by (auto simp: rpart_def)
qed

lemma bounded_next_row:
  assumes "bounded p"
  shows "bounded (next_row p)"
proof -
  have d: "doubles p" using assms by (simp add: bounded_def)
  have c: "\<And>y. y < length p \<Longrightarrow> cell p y = rnd (lpart p y + rpart p y)"
    by (rule cell_parts [OF d])
  have nn: "\<And>y. y < length p \<Longrightarrow> 0 \<le> lpart p y + rpart p y"
    using lpart_double(1) [OF d] rpart_double(1) [OF d] by simp
  have two: "\<And>y. y < length p \<Longrightarrow> cell p y \<le> 2"
  proof -
    fix y assume y: "y < length p"
    have "lpart p y + rpart p y \<le> 2 powi 1" using bounded_parts [OF assms y] by simp
    from rnd_le_pow [OF this _ nn [OF y]] show "cell p y \<le> 2" by (simp add: c [OF y])
  qed
  have first: "p \<noteq> [] \<Longrightarrow> cell p 0 \<le> 1"
  proof -
    assume "p \<noteq> []"
    then have y: "0 < length p" by simp
    have "lpart p 0 + rpart p 0 \<le> 2 powi 0"
      using bounded_parts(2) [OF assms y] by (simp add: lpart_def)
    from rnd_le_pow [OF this _ nn [OF y]] show ?thesis by (simp add: c [OF y])
  qed
  have lst: "p \<noteq> [] \<Longrightarrow> cell p (length p - 1) \<le> 1"
  proof -
    assume "p \<noteq> []"
    then have y: "length p - 1 < length p" by simp
    have "length p \<le> length p - 1 + 1" by simp
    then have "rpart p (length p - 1) = 0" by (simp only: rpart_def if_True)
    then have "lpart p (length p - 1) + rpart p (length p - 1) \<le> 2 powi 0"
      using bounded_parts(1) [OF assms y] by simp
    from rnd_le_pow [OF this _ nn [OF y]] show ?thesis using c [OF y] by simp
  qed
  have "\<forall>v\<in>set (next_row p). v \<le> 2" using two by (auto simp: next_row_def)
  moreover have "next_row p \<noteq> [] \<longrightarrow> next_row p ! 0 \<le> 1 \<and> last (next_row p) \<le> 1"
  proof
    assume "next_row p \<noteq> []"
    then have ne: "p \<noteq> []" by (auto simp: next_row_def)
    then have "0 < length p" "length p - 1 < length p" by simp_all
    then show "next_row p ! 0 \<le> 1 \<and> last (next_row p) \<le> 1"
      using first [OF ne] lst [OF ne] \<open>next_row p \<noteq> []\<close>
      by (simp add: last_conv_nth next_row_nth)
  qed
  ultimately show ?thesis using next_row_doubles [OF d] by (simp add: bounded_def)
qed

lemma bounded_impulse: "bounded (impulse w sp)"
  unfolding bounded_def using impulse_doubles [of w sp]
  by (auto simp: impulse_def last_conv_nth)

lemma iter_bounded: "bounded ((next_row ^^ i) (impulse w sp))"
  by (induction i) (simp_all add: bounded_impulse bounded_next_row)

lemma cells_le_2:
  assumes "max_width self = Some w" and "number_rows self = Some r" and "0 < r"
    and "plinko_stat self = Inr (d, l)" and "row \<in> set d" and "v \<in> set row"
  shows "0 \<le> v \<and> v \<le> 2 \<and> rnd v = v"
proof -
  from plinko_stat_rows [OF assms(1,2,3)] assms(4) have
    d: "length d = nat r" "\<forall>i<nat r. d ! i = (next_row ^^ i) (impulse w (starting_pos self))"
    by auto
  from assms(5) obtain i where "i < length d" "row = d ! i" by (auto simp: in_set_conv_nth)
  then have "bounded row" using d iter_bounded by simp
  then show ?thesis using assms(6) by (auto simp: bounded_def doubles_def)
qed

section \<open>A board on which rounding loses mass\<close>








section \<open>Examples\<close>

text \<open>
  The two boards the specification gives as examples, a board of four rows, and a board
  without rows.
\<close>

lemma example_centre_start:
  "plinko_stat (board 3 2 2) =
     Inr ([[0, 1, 0, 0, 0], [1 / 2, 0, 1 / 2, 0, 0]], [(0, 1 / 2), (2, 1 / 2)])"
  by (simp add: plinko_stat_board) code_simp

lemma example_edge_start:
  "plinko_stat (board 2 3 1) =
     Inr ([[1, 0, 0], [0, 1, 0], [1 / 2, 0, 1 / 2]], [(0, 1 / 2), (2, 1 / 2)])"
  by (simp add: plinko_stat_board) code_simp

lemma example_four_rows:
  "plinko_stat (board 3 4 2) =
     Inr ([[0, 1, 0, 0, 0], [1 / 2, 0, 1 / 2, 0, 0], [0, 3 / 4, 0, 1 / 4, 0],
           [3 / 8, 0, 1 / 2, 0, 1 / 8]],
          [(0, 3 / 8), (2, 1 / 2), (4, 1 / 8)])"
  by (simp add: plinko_stat_board) code_simp

lemma example_no_rows: "plinko_stat (board 3 0 1) = Inl IndexError"
  by code_simp

section \<open>Claims\<close>

text \<open>
  In the statements below \<open>w\<close>, \<open>r\<close> and \<open>s\<close> are the width, the number of rows and the
  starting slot; \<open>d\<close> is the MassTable and \<open>l\<close> the FinalDistribution that
  \<^verbatim>\<open>plinko_stat\<close> returns. Columns and rows are counted from 0, as the frame labels them.
  Every statement of the form \<open>\<exists>d l. plinko_stat self = Inr (d, l) \<and> \<dots>\<close> also says
  that the call returns without raising.
\<close>

subsection \<open>C1: conservation of mass\<close>




subsection \<open>C2: where the full contribution applies\<close>

text \<open>
  C2 as stated: a destination in the first column (index 0) gets the full mass of its
  source, and so does a destination in the last column (index 2 * width - 2); each edge
  column receives the full contribution of its single interior neighbour.

  Starting from the middle column of a board of width 2, the whole mass 1 sits in column
  1, the interior neighbour of both edge columns. In row 1 each edge column holds 1 / 2,
  not 1.
\<close>

theorem edge_column_receives_half:
  "plinko_stat (board 2 2 2) = Inr ([[0, 1, 0], [1 / 2, 0, 1 / 2]], [(0, 1 / 2), (2, 1 / 2)]) \<and>
   [[0, 1, 0], [1 / 2, 0, 1 / 2 :: rat]] ! 1 ! 0 \<noteq> [[0, 1, 0], [1 / 2, 0, 1 / 2]] ! 0 ! 1 \<and>
   [[0, 1, 0], [1 / 2, 0, 1 / 2 :: rat]] ! 1 ! 2 \<noteq> [[0, 1, 0], [1 / 2, 0, 1 / 2]] ! 0 ! 1"
proof -
  have "plinko_stat (board 2 2 2) = Inr ([[0, 1, 0], [1 / 2, 0, 1 / 2]], [(0, 1 / 2), (2, 1 / 2)])"
    by (simp add: plinko_stat_board) code_simp
  then show ?thesis by simp
qed

text \<open>
  C2 as amended: for width at least 2 and every row i >= 1, the full contribution
  applies at destination column 1, which receives the full mass of its left source
  (column 0), and at destination column 2 * width - 3, which receives the full mass of
  its right source (column 2 * width - 2): each edge column hands its full mass to its
  single interior neighbour. The other source of these two destinations is halved
  (unless width = 2, where the two destinations are one column and both sources are
  full). The edge columns themselves receive half the mass of their interior neighbour.
  Each division and each addition is the double operation of the code (\<open>rnd\<close>); up to
  row 53 none of them rounds, and the plain equations hold as well.
\<close>

theorem edge_mass_moves_inward:
  assumes "max_width self = Some w" and "number_rows self = Some r"
    and "2 \<le> w" and "0 < i" and "i < nat r"
  shows "\<exists>d l. plinko_stat self = Inr (d, l) \<and>
           d ! i ! 1 =
             rnd (d ! (i - 1) ! 0 + (if w = 2 then d ! (i - 1) ! 2 else rnd (d ! (i - 1) ! 2 / 2))) \<and>
           d ! i ! nat (2 * w - 3) =
             rnd ((if w = 2 then d ! (i - 1) ! nat (2 * w - 4)
                   else rnd (d ! (i - 1) ! nat (2 * w - 4) / 2))
                  + d ! (i - 1) ! nat (2 * w - 2)) \<and>
           d ! i ! 0 = rnd (d ! (i - 1) ! 1 / 2) \<and>
           d ! i ! nat (2 * w - 2) = rnd (d ! (i - 1) ! nat (2 * w - 3) / 2) \<and>
           (i \<le> 53 \<longrightarrow>
              d ! i ! 1 = d ! (i - 1) ! 0 + (if w = 2 then d ! (i - 1) ! 2 else d ! (i - 1) ! 2 / 2) \<and>
              d ! i ! nat (2 * w - 3) =
                (if w = 2 then d ! (i - 1) ! nat (2 * w - 4) else d ! (i - 1) ! nat (2 * w - 4) / 2)
                  + d ! (i - 1) ! nat (2 * w - 2) \<and>
              d ! i ! 0 = d ! (i - 1) ! 1 / 2 \<and>
              d ! i ! nat (2 * w - 2) = d ! (i - 1) ! nat (2 * w - 3) / 2)"
proof -
  from plinko_stat_step [OF assms(1,2,4,5)] obtain d where
    d: "plinko_stat self = Inr (d, nonzero (last d))"
    and dbl: "doubles (d ! (i - 1))" and n: "length (d ! (i - 1)) = nat (2 * w - 1)"
    and di: "d ! i = next_row (d ! (i - 1))"
    and ex: "i \<le> 53 \<longrightarrow> d ! i = next_exact (d ! (i - 1))"
    by blast
  define p where "p = d ! (i - 1)"
  note dbl = dbl [folded p_def] and n = n [folded p_def]
  have three: "3 \<le> length p" using n assms(3) by simp
  have idx: "nat (2 * w - 3) = length p - 2" "nat (2 * w - 4) = length p - 3"
    "nat (2 * w - 2) = length p - 1" "(w = 2) = (length p = 3)"
    using n assms(3) by auto
  have lt: "0 < length p" "1 < length p" "length p - 2 < length p" "length p - 1 < length p"
    using three by linarith+
  have edge: "length p - 1 \<noteq> 1" "length p - 1 + 2 \<noteq> length p" "0 < length p - 1"
    "\<not> length p - 1 + 1 < length p" "length p - 1 - 1 = length p - 2"
    using three by linarith+
  have f1: "next_row p ! 1 = rnd (p ! 0 + (if w = 2 then p ! 2 else rnd (p ! 2 / 2)))"
    unfolding next_row_nth [OF lt(2)] cell_second [OF dbl three] idx(4) ..
  have f2: "next_row p ! nat (2 * w - 3) =
      rnd ((if w = 2 then p ! nat (2 * w - 4) else rnd (p ! nat (2 * w - 4) / 2)) + p ! nat (2 * w - 2))"
    unfolding idx next_row_nth [OF lt(3)] cell_before_last [OF dbl three] ..
  have f3: "next_row p ! 0 = rnd (p ! 1 / 2)"
  proof -
    have "0 \<le> p ! 1" using doubles_nth [OF dbl lt(2)] by simp
    then show ?thesis
      unfolding next_row_nth [OF lt(1)] using three cell_half [OF dbl lt(1)] by (simp add: rnd_idem)
  qed
  have f4: "next_row p ! nat (2 * w - 2) = rnd (p ! nat (2 * w - 3) / 2)"
  proof -
    have "0 \<le> p ! (length p - 2)" using doubles_nth [OF dbl lt(3)] by simp
    then have "cell p (length p - 1) = rnd (p ! (length p - 2) / 2)"
      using cell_half [OF dbl lt(4)] edge by (simp add: rnd_idem)
    then show ?thesis unfolding idx next_row_nth [OF lt(4)] .
  qed
  have e1: "next_exact p ! 1 = p ! 0 + (if w = 2 then p ! 2 else p ! 2 / 2)"
    unfolding exact_second [OF three] idx(4) ..
  have e2: "next_exact p ! nat (2 * w - 3) =
      (if w = 2 then p ! nat (2 * w - 4) else p ! nat (2 * w - 4) / 2) + p ! nat (2 * w - 2)"
    unfolding idx exact_before_last [OF three] ..
  have e3: "next_exact p ! 0 = p ! 1 / 2"
    using three exact_half [OF lt(1)] by simp
  have e4: "next_exact p ! nat (2 * w - 2) = p ! nat (2 * w - 3) / 2"
    unfolding idx using exact_half [OF lt(4)] edge by simp
  have "d ! i ! 1 = rnd (p ! 0 + (if w = 2 then p ! 2 else rnd (p ! 2 / 2))) \<and>
        d ! i ! nat (2 * w - 3) =
          rnd ((if w = 2 then p ! nat (2 * w - 4) else rnd (p ! nat (2 * w - 4) / 2)) + p ! nat (2 * w - 2)) \<and>
        d ! i ! 0 = rnd (p ! 1 / 2) \<and>
        d ! i ! nat (2 * w - 2) = rnd (p ! nat (2 * w - 3) / 2) \<and>
        (i \<le> 53 \<longrightarrow>
           d ! i ! 1 = p ! 0 + (if w = 2 then p ! 2 else p ! 2 / 2) \<and>
           d ! i ! nat (2 * w - 3) =
             (if w = 2 then p ! nat (2 * w - 4) else p ! nat (2 * w - 4) / 2) + p ! nat (2 * w - 2) \<and>
           d ! i ! 0 = p ! 1 / 2 \<and>
           d ! i ! nat (2 * w - 2) = p ! nat (2 * w - 3) / 2)"
    using f1 f2 f3 f4 e1 e2 e3 e4 ex unfolding di p_def [symmetric] by metis
  then show ?thesis using d unfolding p_def by blast
qed

theorem edge_mass_moves_inward_witness:
  "max_width (board 3 4 2) = Some 3 \<and> number_rows (board 3 4 2) = Some 4 \<and>
   (2::int) \<le> 3 \<and> (0::nat) < 2 \<and> (2::nat) < nat 4 \<and>
   (\<exists>d l. plinko_stat (board 3 4 2) = Inr (d, l) \<and>
           d ! 2 ! 1 = rnd (d ! 1 ! 0 + rnd (d ! 1 ! 2 / 2)) \<and>
           d ! 2 ! 3 = rnd (rnd (d ! 1 ! 2 / 2) + d ! 1 ! 4) \<and>
           d ! 2 ! 0 = rnd (d ! 1 ! 1 / 2) \<and>
           d ! 2 ! 4 = rnd (d ! 1 ! 3 / 2) \<and>
           d ! 2 ! 1 = d ! 1 ! 0 + d ! 1 ! 2 / 2 \<and>
           d ! 2 ! 3 = d ! 1 ! 2 / 2 + d ! 1 ! 4 \<and>
           d ! 2 ! 0 = d ! 1 ! 1 / 2 \<and>
           d ! 2 ! 4 = d ! 1 ! 3 / 2)"
  using edge_mass_moves_inward [of "board 3 4 2" 3 4 2]
  by (simp add: board_def new_plugin_def numeral_2_eq_2 numeral_3_eq_3 eval_nat_numeral)

subsection \<open>C3: a configuration error does not stop the computation\<close>

text \<open>
  C3 says that with startingSlot = 5 and width = 3, or with a missing startingSlot, a
  configuration error is reported and no MassTable is produced. \<^verbatim>\<open>pi_init\<close> reports the
  error and clears \<open>is_initialized\<close>, but it never reads that flag: it calls
  \<^verbatim>\<open>plinko_stat\<close> all the same and stores the frame and the series it returns. Slot 5
  lands in column 4 of the five columns of a board of width 3.
\<close>

theorem pi_init_computes_after_error:
  "pi_init (Some 3) (Some 2) (Some 5) new_plugin =
     Inr \<lparr>max_width = Some 3, number_rows = Some 2, starting_pos = Some 5,
          is_initialized = Some False,
          messages = [''Starting Position cannot be greater than the number of slots.''],
          df = Some [[0, 0, 0, 0, 1], [0, 0, 0, 1, 0]],
          last_row = Some [(3, 1)]\<rparr> \<and>
   pi_init (Some 3) (Some 2) None new_plugin =
     Inr \<lparr>max_width = Some 3, number_rows = Some 2, starting_pos = None,
          is_initialized = Some False,
          messages = [''Starting Position cannot be empty.''],
          df = Some [[0, 0, 0, 0, 0], [0, 0, 0, 0, 0]],
          last_row = Some []\<rparr>"
proof -
  define a where "a = \<lparr>max_width = Some 3, number_rows = Some 2, starting_pos = Some 5,
          is_initialized = Some False,
          messages = [''Starting Position cannot be greater than the number of slots.''],
          df = None, last_row = None\<rparr>"
  define b where "b = \<lparr>max_width = Some 3, number_rows = Some 2, starting_pos = None,
          is_initialized = Some False,
          messages = [''Starting Position cannot be empty.''],
          df = None, last_row = None\<rparr>"
  have va: "valid_checks (new_plugin\<lparr>max_width := Some 3, number_rows := Some 2, starting_pos := Some 5\<rparr>) = Inr a"
    by (simp add: valid_checks_def display_error_msg_def new_plugin_def a_def)
  have vb: "valid_checks (new_plugin\<lparr>max_width := Some 3, number_rows := Some 2, starting_pos := None\<rparr>) = Inr b"
    by (simp add: valid_checks_def display_error_msg_def new_plugin_def b_def)
  have "plinko_stat a = exact_stat 3 2 (starting_pos a)"
    by (rule plinko_stat_exact) (simp_all add: a_def)
  also have "\<dots> = Inr ([[0, 0, 0, 0, 1], [0, 0, 0, 1, 0]], [(3, 1)])"
    unfolding a_def by (simp, code_simp)
  finally have pa: "plinko_stat a = Inr ([[0, 0, 0, 0, 1], [0, 0, 0, 1, 0]], [(3, 1)])" .
  have "plinko_stat b = exact_stat 3 2 (starting_pos b)"
    by (rule plinko_stat_exact) (simp_all add: b_def)
  also have "\<dots> = Inr ([[0, 0, 0, 0, 0], [0, 0, 0, 0, 0]], [])"
    unfolding b_def by (simp, code_simp)
  finally have pb: "plinko_stat b = Inr ([[0, 0, 0, 0, 0], [0, 0, 0, 0, 0]], [])" .
  show ?thesis
    by (simp add: pi_init_def va vb pa pb) (simp add: a_def b_def)
qed

subsection \<open>C4: mirror symmetry\<close>

text \<open>
  C4 as stated: the FinalDistribution for startingSlot k is the mirror image (column c
  to column 2 * W - 2 - c) of the FinalDistribution for startingSlot W + 1 - k.

  Slot k starts in column k - 1 of the 2 * W - 1 columns, so the slots 1 to W are the left
  half of the frame with its centre column. On a board of width 2 with two rows, slot 1
  ends with all mass in column 1, slot 2 = W + 1 - 1 ends with the mass split between
  columns 0 and 2.
\<close>

theorem mirrored_slot_not_mirrored:
  "plinko_stat (board 2 2 1) = Inr ([[1, 0, 0], [0, 1, 0]], [(1, 1)]) \<and>
   plinko_stat (board 2 2 (2 + 1 - 1)) = Inr ([[0, 1, 0], [1 / 2, 0, 1 / 2]], [(0, 1 / 2), (2, 1 / 2)]) \<and>
   mirror 2 [(0, 1 / 2), (2, 1 / 2)] \<noteq> [(1, 1)]"
proof -
  have "plinko_stat (board 2 2 1) = Inr ([[1, 0, 0], [0, 1, 0]], [(1, 1)])"
    by (simp add: plinko_stat_board) code_simp
  moreover
  have "plinko_stat (board 2 2 (2 + 1 - 1)) = Inr ([[0, 1, 0], [1 / 2, 0, 1 / 2]], [(0, 1 / 2), (2, 1 / 2)])"
    by (simp add: plinko_stat_board) code_simp
  ultimately show ?thesis by (simp add: mirror_def)
qed

text \<open>
  C4 as amended: for every width W > 0 and rows > 0, the FinalDistribution for
  startingSlot W, the valid slot that starts in the centre column W - 1, is its own
  mirror image (column c to column 2 * W - 2 - c), and so is every row of the
  MassTable. For W = 1 this is the claim as stated.
\<close>

theorem centre_start_symmetric:
  assumes "max_width self = Some w" and "number_rows self = Some r"
    and "starting_pos self = Some w" and "0 < w" and "0 < r"
  shows "\<exists>d l. plinko_stat self = Inr (d, l) \<and> l = mirror w l \<and> d = map rev d"
proof -
  from plinko_stat_rows [OF assms(1,2,5)] obtain d where
    d: "plinko_stat self = Inr (d, nonzero (last d))" "length d = nat r"
      "\<forall>i<nat r. d ! i = (next_row ^^ i) (impulse w (Some w))"
    unfolding assms(3) by blast
  have imp: "impulse w (Some w) = rev (impulse w (Some w))"
    using impulse_rev [of w w] by simp
  have "(next_row ^^ i) (impulse w (Some w)) = rev ((next_row ^^ i) (impulse w (Some w)))" for i
    using iter_rev [OF impulse_doubles, of i w "Some w"] imp by simp
  then have rows: "d = map rev d"
    using d(2,3) by (intro nth_equalityI) simp_all
  have ne: "d \<noteq> []" using d(2) assms(5) by auto
  have last: "last d = rev (last d)" using ne rows by (metis last_map)
  have len: "length (last d) = nat (2 * w - 1)"
    using ne d(2,3) assms(5) by (simp add: last_conv_nth)
  have "nat (2 * w - 2) = length (last d) - 1" using len assms(4) by simp
  then have "nonzero (rev (last d)) = mirror w (nonzero (last d))"
    by (simp add: nonzero_rev mirror_def)
  then have "nonzero (last d) = mirror w (nonzero (last d))" using last by simp
  with d(1) rows show ?thesis by blast
qed

theorem centre_start_symmetric_witness:
  "max_width (board 3 4 3) = Some 3 \<and> number_rows (board 3 4 3) = Some 4 \<and>
   starting_pos (board 3 4 3) = Some 3 \<and> (0::int) < 3 \<and> (0::int) < 4 \<and>
   (\<exists>d l. plinko_stat (board 3 4 3) = Inr (d, l) \<and> l = mirror 3 l \<and> d = map rev d)"
  using centre_start_symmetric [of "board 3 4 3" 3 4] by (simp add: board_def new_plugin_def)

subsection \<open>C5: a board of one row\<close>

text \<open>
  C5 as stated: with rows = 1 the FinalDistribution is the single entry keyed by
  startingSlot, with mass 1.

  The entry is keyed by the column label, which is startingSlot - 1: slot 1 is column 0.
\<close>

theorem one_row_key_is_column:
  "plinko_stat (board 1 1 1) = Inr ([[1]], [(0, 1)]) \<and> [(0 :: nat, 1 :: rat)] \<noteq> [(1, 1)]"
proof -
  have "plinko_stat (board 1 1 1) = Inr ([[1]], [(0, 1)])"
    by (simp add: plinko_stat_board) code_simp
  then show ?thesis by simp
qed

text \<open>
  C5 as amended: for every valid input with rows = 1, \<^verbatim>\<open>plinko_stat\<close> returns the
  impulse row alone, and the FinalDistribution is the single entry keyed by
  startingSlot - 1, with mass 1.
\<close>

theorem one_row_distribution:
  assumes "max_width self = Some w" and "number_rows self = Some 1"
    and "starting_pos self = Some s" and "0 < w" and "1 \<le> s" and "s \<le> w"
  shows "plinko_stat self =
           Inr ([(replicate (nat (2 * w - 1)) 0)[nat (s - 1) := 1]], [(nat (s - 1), 1)])"
proof -
  from plinko_stat_rows [OF assms(1,2)] obtain d where
    d: "plinko_stat self = Inr (d, nonzero (last d))" "length d = 1"
      "d ! 0 = impulse w (starting_pos self)"
    by auto
  have s: "s \<le> 2 * w - 1" using assms(4,6) by simp
  from d(2) obtain row where row: "d = [row]" by (cases d) auto
  have "row = impulse w (Some s)" using d(3) row assms(3) by simp
  then show ?thesis
    using d(1) row nonzero_impulse [OF assms(5) s] impulse_update [OF assms(5) s] by simp
qed

theorem one_row_distribution_witness:
  "max_width (board 3 1 2) = Some 3 \<and> number_rows (board 3 1 2) = Some 1 \<and>
   starting_pos (board 3 1 2) = Some 2 \<and> (0::int) < 3 \<and> (1::int) \<le> 2 \<and> (2::int) \<le> 3 \<and>
   plinko_stat (board 3 1 2) =
     Inr ([(replicate (nat (2 * 3 - 1)) 0)[nat (2 - 1) := 1]], [(nat (2 - 1), 1)])"
  using one_row_distribution [of "board 3 1 2" 3 2] by (simp add: board_def new_plugin_def)

subsection \<open>C6: the half split\<close>

text \<open>
  C6 as stated: for every row i >= 1 and every destination column c other than the
  first (0) and the last (2 * width - 2), the new value is half the left source plus
  half the right source.

  On a board of width 2, column 1 is neither the first column nor the last (column 2).
  Starting from slot 1, row 1 holds in column 1 the full mass 1 of column 0, not half
  of it.
\<close>

theorem second_column_receives_full:
  "plinko_stat (board 2 2 1) = Inr ([[1, 0, 0], [0, 1, 0]], [(1, 1)]) \<and>
   [[1, 0, 0], [0, 1, 0 :: rat]] ! 1 ! 1 \<noteq>
     [[1, 0, 0], [0, 1, 0]] ! 0 ! 0 / 2 + [[1, 0, 0], [0, 1, 0]] ! 0 ! 2 / 2"
proof -
  have "plinko_stat (board 2 2 1) = Inr ([[1, 0, 0], [0, 1, 0]], [(1, 1)])"
    by (simp add: plinko_stat_board) code_simp
  then show ?thesis by simp
qed

text \<open>
  C6 as amended: for every row i >= 1 and every destination column c other than 1 and
  2 * width - 3 (so also for the first and the last column), the new value is half the
  left source plus half the right source, a source out of range counting as zero. Each
  division and the addition are the double operations of the code (\<open>rnd\<close>); up to row 53
  none of them rounds, and the plain equation holds as well.
\<close>

theorem half_split_elsewhere:
  assumes "max_width self = Some w" and "number_rows self = Some r"
    and "0 < w" and "0 < i" and "i < nat r"
    and "c < nat (2 * w - 1)" and "c \<noteq> 1" and "int c \<noteq> 2 * w - 3"
  shows "\<exists>d l. plinko_stat self = Inr (d, l) \<and>
           d ! i ! c = rnd (rnd ((if 0 < c then d ! (i - 1) ! (c - 1) else 0) / 2)
                          + rnd ((if c + 1 < nat (2 * w - 1) then d ! (i - 1) ! (c + 1) else 0) / 2)) \<and>
           (i \<le> 53 \<longrightarrow>
              d ! i ! c = (if 0 < c then d ! (i - 1) ! (c - 1) else 0) / 2
                        + (if c + 1 < nat (2 * w - 1) then d ! (i - 1) ! (c + 1) else 0) / 2)"
proof -
  from plinko_stat_step [OF assms(1,2,4,5)] obtain d where
    d: "plinko_stat self = Inr (d, nonzero (last d))"
    and dbl: "doubles (d ! (i - 1))" and n: "length (d ! (i - 1)) = nat (2 * w - 1)"
    and di: "d ! i = next_row (d ! (i - 1))"
    and ex: "i \<le> 53 \<longrightarrow> d ! i = next_exact (d ! (i - 1))"
    by blast
  have c: "c < length (d ! (i - 1))" using assms(6) n by simp
  have c2: "c + 2 \<noteq> length (d ! (i - 1))" using n assms(3,8) by auto
  have "d ! i ! c = rnd (rnd ((if 0 < c then d ! (i - 1) ! (c - 1) else 0) / 2)
                          + rnd ((if c + 1 < nat (2 * w - 1) then d ! (i - 1) ! (c + 1) else 0) / 2))"
    unfolding di next_row_nth [OF c] cell_half [OF dbl c assms(7) c2] n ..
  moreover have "i \<le> 53 \<longrightarrow>
      d ! i ! c = (if 0 < c then d ! (i - 1) ! (c - 1) else 0) / 2
                + (if c + 1 < nat (2 * w - 1) then d ! (i - 1) ! (c + 1) else 0) / 2"
    using ex exact_half [OF c assms(7) c2] n by simp
  ultimately show ?thesis using d by blast
qed

theorem half_split_elsewhere_witness:
  "max_width (board 3 4 2) = Some 3 \<and> number_rows (board 3 4 2) = Some 4 \<and>
   (0::int) < 3 \<and> (0::nat) < 3 \<and> (3::nat) < nat 4 \<and> (2::nat) < nat (2 * 3 - 1) \<and> (2::nat) \<noteq> 1 \<and>
   int 2 \<noteq> 2 * 3 - 3 \<and>
   (\<exists>d l. plinko_stat (board 3 4 2) = Inr (d, l) \<and>
           d ! 3 ! 2 = rnd (rnd (d ! 2 ! 1 / 2) + rnd (d ! 2 ! 3 / 2)) \<and>
           d ! 3 ! 2 = d ! 2 ! 1 / 2 + d ! 2 ! 3 / 2)"
  using half_split_elsewhere [of "board 3 4 2" 3 4 3 2]
  by (simp add: board_def new_plugin_def numeral_2_eq_2 numeral_3_eq_3 eval_nat_numeral)

subsection \<open>C7: the first row\<close>

text \<open>
  C7 as stated: the MassTable has rows by 2 * width - 1 entries, and row 0 has a single
  non-zero entry, 1, at \<^verbatim>\<open>grid[0][startingSlot]\<close>.

  The counter that is compared with the starting slot begins at 1 in column 0, so the
  entry is in column startingSlot - 1. For slot 1, column 1 holds 0 and column 0 holds 1.
\<close>

theorem start_column_is_slot_minus_one:
  "plinko_stat (board 2 1 1) = Inr ([[1, 0, 0]], [(0, 1)]) \<and>
   [[1, 0, 0 :: rat]] ! 0 ! 1 \<noteq> 1 \<and> [[1, 0, 0 :: rat]] ! 0 ! 0 \<noteq> 0"
proof -
  have "plinko_stat (board 2 1 1) = Inr ([[1, 0, 0]], [(0, 1)])"
    by (simp add: plinko_stat_board) code_simp
  then show ?thesis by simp
qed

text \<open>
  C7 as amended: for every valid input the MassTable has rows by 2 * width - 1 entries,
  and row 0 has a single non-zero entry, 1, in column startingSlot - 1 (the column whose
  position counted from 1 is the starting slot); every other entry of row 0 is zero.
\<close>

theorem initial_row:
  assumes "max_width self = Some w" and "number_rows self = Some r"
    and "starting_pos self = Some s" and "0 < w" and "0 < r" and "1 \<le> s" and "s \<le> w"
  shows "\<exists>d l. plinko_stat self = Inr (d, l) \<and> length d = nat r \<and>
           (\<forall>row\<in>set d. length row = nat (2 * w - 1)) \<and>
           d ! 0 ! nat (s - 1) = 1 \<and>
           (\<forall>c<nat (2 * w - 1). c \<noteq> nat (s - 1) \<longrightarrow> d ! 0 ! c = 0)"
proof -
  from plinko_stat_rows [OF assms(1,2,5)] obtain d where
    d: "plinko_stat self = Inr (d, nonzero (last d))" "length d = nat r"
      "\<forall>i<nat r. d ! i = (next_row ^^ i) (impulse w (starting_pos self))"
    by blast
  have s: "s \<le> 2 * w - 1" using assms(4,7) by simp
  have "\<forall>i<length d. length (d ! i) = nat (2 * w - 1)" using d(2,3) by simp
  then have cols: "\<forall>row\<in>set d. length row = nat (2 * w - 1)"
    by (simp add: all_set_conv_all_nth)
  have d0: "d ! 0 = (replicate (nat (2 * w - 1)) 0)[nat (s - 1) := 1]"
    using d(3) assms(3,5) impulse_update [OF assms(6) s] by simp
  have k: "nat (s - 1) < nat (2 * w - 1)" using assms(6) s by simp
  have "d ! 0 ! nat (s - 1) = 1" using k by (simp add: d0)
  moreover have "\<forall>c<nat (2 * w - 1). c \<noteq> nat (s - 1) \<longrightarrow> d ! 0 ! c = 0"
    by (simp add: d0)
  ultimately show ?thesis using d(1,2) cols by blast
qed

theorem initial_row_witness:
  "max_width (board 3 4 2) = Some 3 \<and> number_rows (board 3 4 2) = Some 4 \<and>
   starting_pos (board 3 4 2) = Some 2 \<and> (0::int) < 3 \<and> (0::int) < 4 \<and> (1::int) \<le> 2 \<and> (2::int) \<le> 3 \<and>
   (\<exists>d l. plinko_stat (board 3 4 2) = Inr (d, l) \<and> length d = nat 4 \<and>
           (\<forall>row\<in>set d. length row = nat (2 * 3 - 1)) \<and>
           d ! 0 ! nat (2 - 1) = 1 \<and>
           (\<forall>c<nat (2 * 3 - 1). c \<noteq> nat (2 - 1) \<longrightarrow> d ! 0 ! c = 0))"
  using initial_row [of "board 3 4 2" 3 4 2] by (simp add: board_def new_plugin_def)

subsection \<open>C8: the final distribution\<close>

text \<open>
  C8: whenever width > 0 and rows > 0, \<^verbatim>\<open>plinko_stat\<close> returns a frame with a last row
  (row \<open>rows - 1\<close>), and the FinalDistribution holds exactly the columns of that row
  whose mass is not zero, each keyed by its column index with the mass of the last row
  as value, by ascending column index.
\<close>

theorem final_distribution:
  assumes "max_width self = Some w" and "number_rows self = Some r"
    and "0 < w" and "0 < r"
  shows "\<exists>d l. plinko_stat self = Inr (d, l) \<and> d \<noteq> [] \<and> last d = d ! (nat r - 1) \<and>
           sorted_wrt (<) (map fst l) \<and>
           (\<forall>c v. (c, v) \<in> set l \<longleftrightarrow> c < length (last d) \<and> last d ! c = v \<and> v \<noteq> 0)"
proof -
  from plinko_stat_rows [OF assms(1,2,4)] obtain d where
    d: "plinko_stat self = Inr (d, nonzero (last d))" "length d = nat r"
    by blast
  have ne: "d \<noteq> []" using d(2) assms(4) by auto
  have "last d = d ! (nat r - 1)" using ne d(2) by (simp add: last_conv_nth)
  with d(1) ne show ?thesis using nonzero_sorted nonzero_set by blast
qed

theorem final_distribution_witness:
  "max_width (board 3 4 2) = Some 3 \<and> number_rows (board 3 4 2) = Some 4 \<and> (0::int) < 3 \<and> (0::int) < 4 \<and>
   (\<exists>d l. plinko_stat (board 3 4 2) = Inr (d, l) \<and> d \<noteq> [] \<and> last d = d ! (nat 4 - 1) \<and>
           sorted_wrt (<) (map fst l) \<and>
           (\<forall>c v. (c, v) \<in> set l \<longleftrightarrow> c < length (last d) \<and> last d ! c = v \<and> v \<noteq> 0))"
  using final_distribution [of "board 3 4 2" 3 4] by (simp add: board_def new_plugin_def)

subsection \<open>C9: no negative mass\<close>

text \<open>
  C9: whenever width > 0 and rows > 0, \<^verbatim>\<open>plinko_stat\<close> returns, and every entry of the
  MassTable is non-negative. The impulse row is non-negative, and a propagation step
  keeps a row non-negative: rounding a non-negative number gives a non-negative double
  (\<open>rnd_nonneg\<close>).
\<close>

theorem mass_nonneg:
  assumes "max_width self = Some w" and "number_rows self = Some r"
    and "0 < w" and "0 < r"
  shows "\<exists>d l. plinko_stat self = Inr (d, l) \<and> (\<forall>row\<in>set d. \<forall>v\<in>set row. 0 \<le> v)"
proof -
  from plinko_stat_rows [OF assms(1,2,4)] obtain d where
    d: "plinko_stat self = Inr (d, nonzero (last d))" "length d = nat r"
      "\<forall>i<nat r. d ! i = (next_row ^^ i) (impulse w (starting_pos self))"
    by blast
  have "\<forall>i<length d. \<forall>v\<in>set (d ! i). 0 \<le> v"
    using d(2,3) iter_doubles [OF impulse_doubles] by (simp add: doubles_def)
  then have "\<forall>row\<in>set d. \<forall>v\<in>set row. 0 \<le> v"
    by (simp add: all_set_conv_all_nth)
  with d(1) show ?thesis by blast
qed

theorem mass_nonneg_witness:
  "max_width (board 3 4 2) = Some 3 \<and> number_rows (board 3 4 2) = Some 4 \<and> (0::int) < 3 \<and> (0::int) < 4 \<and>
   (\<exists>d l. plinko_stat (board 3 4 2) = Inr (d, l) \<and> (\<forall>row\<in>set d. \<forall>v\<in>set row. 0 \<le> v))"
  using mass_nonneg [of "board 3 4 2" 3 4] by (simp add: board_def new_plugin_def)

subsection \<open>C10: a starting slot that is not positive\<close>

text \<open>
  C10: with width > 0, rows > 0 and startingSlot <= 0, \<^verbatim>\<open>plinko_stat\<close> returns a
  MassTable that is zero in every row, row 0 included, and an empty FinalDistribution;
  \<^verbatim>\<open>pi_init\<close> reports nothing (the messages and \<open>is_initialized\<close> are as before
  the call) and stores that table and that distribution.
\<close>

theorem nonpositive_start:
  assumes "0 < w" and "0 < r" and "s \<le> 0"
  shows "plinko_stat (self\<lparr>max_width := Some w, number_rows := Some r, starting_pos := Some s\<rparr>) =
           Inr (replicate (nat r) (replicate (nat (2 * w - 1)) 0), []) \<and>
         pi_init (Some w) (Some r) (Some s) self =
           Inr (self\<lparr>max_width := Some w, number_rows := Some r, starting_pos := Some s,
                     df := Some (replicate (nat r) (replicate (nat (2 * w - 1)) 0)),
                     last_row := Some []\<rparr>)"
proof -
  let ?self = "self\<lparr>max_width := Some w, number_rows := Some r, starting_pos := Some s\<rparr>"
  let ?z = "replicate (nat (2 * w - 1)) (0::rat)"
  have v: "valid_checks ?self = Inr ?self"
    using assms(1,3) by (simp add: valid_checks_def)
  from plinko_stat_rows [of ?self w r] assms(2) obtain d where
    d: "plinko_stat ?self = Inr (d, nonzero (last d))" "length d = nat r"
      "\<forall>i<nat r. d ! i = (next_row ^^ i) (impulse w (Some s))"
    by auto
  have rows: "d = replicate (nat r) ?z"
    using d(2,3) by (intro nth_equalityI) (simp_all add: impulse_zero [OF assms(3)] iter_zero)
  have "last d = ?z" using rows assms(2) by simp
  then have p: "plinko_stat ?self = Inr (replicate (nat r) ?z, [])"
    using d(1) rows by (simp add: nonzero_zero)
  then have "pi_init (Some w) (Some r) (Some s) self =
      Inr (?self\<lparr>df := Some (replicate (nat r) ?z), last_row := Some []\<rparr>)"
    by (simp add: pi_init_def v)
  with p show ?thesis by simp
qed

theorem nonpositive_start_witness:
  "(0::int) < 3 \<and> (0::int) < 2 \<and> (- 1::int) \<le> 0 \<and>
   plinko_stat (board 3 2 (- 1)) = Inr ([[0, 0, 0, 0, 0], [0, 0, 0, 0, 0]], []) \<and>
   pi_init (Some 3) (Some 2) (Some (- 1)) new_plugin =
     Inr \<lparr>max_width = Some 3, number_rows = Some 2, starting_pos = Some (- 1),
          is_initialized = None, messages = [],
          df = Some [[0, 0, 0, 0, 0], [0, 0, 0, 0, 0]], last_row = Some []\<rparr>"
  using nonpositive_start [of 3 2 "- 1" new_plugin]
  by (simp add: board_def new_plugin_def numeral_2_eq_2 numeral_eq_Suc)

end
